theory Spec2Isabelle
  imports Main
begin

section \<open>Strings and the slug normalisation\<close>

text \<open>
  A JavaScript string is a sequence of UTF-16 code units; a code unit is modelled as a
  natural number. \<open>js\<close> writes an ASCII literal as such a sequence.
\<close>

type_synonym jsstring = "nat list"

definition js :: "string \<Rightarrow> jsstring" where
  "js s = map of_char s"

text \<open>
  \<^verbatim>\<open>String.prototype.toLowerCase\<close>, exact on strings of code units U+0000..U+00FF
  (Basic Latin and Latin-1 Supplement): \<open>A\<close>..\<open>Z\<close> and U+00C0..U+00DE (but the
  multiplication sign U+00D7) move up by 0x20. Code units from U+0100 on are passed
  through unchanged, which is not what the runtime does for the cased ones among them
  (it maps U+212A to \<open>k\<close> and U+0130 to \<open>i\<close> followed by U+0307). Every statement below
  that evaluates \<open>toLowerCase\<close> does so on code units U+0000..U+00FF, or on ASCII; the
  statements about the store and the orchestrator hold for any \<open>slugify\<close>.
\<close>

definition lower_unit :: "nat \<Rightarrow> nat" where
  "lower_unit c =
     (if (0x41 \<le> c \<and> c \<le> 0x5A) \<or> (0xC0 \<le> c \<and> c \<le> 0xDE \<and> c \<noteq> 0xD7)
      then c + 0x20 else c)"

definition toLowerCase :: "jsstring \<Rightarrow> jsstring" where
  "toLowerCase text = map lower_unit text"

text \<open>The character class \<^verbatim>\<open>[a-z0-9]\<close>.\<close>

definition alnum :: "nat \<Rightarrow> bool" where
  "alnum c = ((0x61 \<le> c \<and> c \<le> 0x7A) \<or> (0x30 \<le> c \<and> c \<le> 0x39))"

text \<open>
  \<^verbatim>\<open>.replace(/[^a-z0-9]+/g, "-")\<close>: every maximal run of code units outside the class
  becomes one hyphen (U+002D).
\<close>

function replace_non_alnum :: "jsstring \<Rightarrow> jsstring" where
  "replace_non_alnum [] = []"
| "replace_non_alnum (c # cs) =
     (if alnum c then c # replace_non_alnum cs
      else 0x2D # replace_non_alnum (dropWhile (\<lambda>d. \<not> alnum d) cs))"
  by pat_completeness auto
termination
  by (relation "measure length") (auto simp: less_Suc_eq_le length_dropWhile_le)

text \<open>
  \<^verbatim>\<open>.replace(/^-|-$/g, "")\<close>: a hyphen at the very start is removed, and then a hyphen
  at the very end.
\<close>

definition trim_hyphen :: "jsstring \<Rightarrow> jsstring" where
  "trim_hyphen s =
     (let t = (case s of [] \<Rightarrow> [] | c # cs \<Rightarrow> if c = 0x2D then cs else s)
      in if t \<noteq> [] \<and> last t = 0x2D then butlast t else t)"

text \<open>\<^verbatim>\<open>slugify\<close> of \<^verbatim>\<open>sync.ts\<close>.\<close>

definition slugify :: "jsstring \<Rightarrow> jsstring" where
  "slugify text = trim_hyphen (replace_non_alnum (toLowerCase text))"

text \<open>\<^verbatim>\<open>slugify\<close> of \<^verbatim>\<open>scrape-extra.ts\<close>, a textual copy of the one above.\<close>

definition slugify_scrape_extra :: "jsstring \<Rightarrow> jsstring" where
  "slugify_scrape_extra text = trim_hyphen (replace_non_alnum (toLowerCase text))"

text \<open>
  \<^verbatim>\<open>String.prototype.normalize("NFD")\<close>, exact on strings of code units
  U+0000..U+00FF: the letters of Latin-1 Supplement that have a canonical decomposition
  become the base letter followed by a combining mark. Code units from U+0100 on are
  passed through unchanged, which is not what the runtime does for those with a
  decomposition (U+0101 becomes \<open>a\<close> followed by U+0304), and the reordering of combining
  marks already present in the input is not modelled.
\<close>

definition latin1_decomposition :: "(nat \<times> nat list) list" where
  "latin1_decomposition =
    [(0xC0, [0x41, 0x300]), (0xC1, [0x41, 0x301]), (0xC2, [0x41, 0x302]),
     (0xC3, [0x41, 0x303]), (0xC4, [0x41, 0x308]), (0xC5, [0x41, 0x30A]),
     (0xC7, [0x43, 0x327]),
     (0xC8, [0x45, 0x300]), (0xC9, [0x45, 0x301]), (0xCA, [0x45, 0x302]),
     (0xCB, [0x45, 0x308]),
     (0xCC, [0x49, 0x300]), (0xCD, [0x49, 0x301]), (0xCE, [0x49, 0x302]),
     (0xCF, [0x49, 0x308]),
     (0xD1, [0x4E, 0x303]),
     (0xD2, [0x4F, 0x300]), (0xD3, [0x4F, 0x301]), (0xD4, [0x4F, 0x302]),
     (0xD5, [0x4F, 0x303]), (0xD6, [0x4F, 0x308]),
     (0xD9, [0x55, 0x300]), (0xDA, [0x55, 0x301]), (0xDB, [0x55, 0x302]),
     (0xDC, [0x55, 0x308]), (0xDD, [0x59, 0x301]),
     (0xE0, [0x61, 0x300]), (0xE1, [0x61, 0x301]), (0xE2, [0x61, 0x302]),
     (0xE3, [0x61, 0x303]), (0xE4, [0x61, 0x308]), (0xE5, [0x61, 0x30A]),
     (0xE7, [0x63, 0x327]),
     (0xE8, [0x65, 0x300]), (0xE9, [0x65, 0x301]), (0xEA, [0x65, 0x302]),
     (0xEB, [0x65, 0x308]),
     (0xEC, [0x69, 0x300]), (0xED, [0x69, 0x301]), (0xEE, [0x69, 0x302]),
     (0xEF, [0x69, 0x308]),
     (0xF1, [0x6E, 0x303]),
     (0xF2, [0x6F, 0x300]), (0xF3, [0x6F, 0x301]), (0xF4, [0x6F, 0x302]),
     (0xF5, [0x6F, 0x303]), (0xF6, [0x6F, 0x308]),
     (0xF9, [0x75, 0x300]), (0xFA, [0x75, 0x301]), (0xFB, [0x75, 0x302]),
     (0xFC, [0x75, 0x308]), (0xFD, [0x79, 0x301]), (0xFF, [0x79, 0x308])]"

definition normalize_NFD :: "jsstring \<Rightarrow> jsstring" where
  "normalize_NFD s =
     concat (map (\<lambda>c. case map_of latin1_decomposition c of
                         Some d \<Rightarrow> d | None \<Rightarrow> [c]) s)"

text \<open>
  The replacement of the character class U+0300..U+036F by the empty string: the
  combining diacritical marks are dropped.
\<close>

definition strip_combining :: "jsstring \<Rightarrow> jsstring" where
  "strip_combining s = filter (\<lambda>c. \<not> (0x300 \<le> c \<and> c \<le> 0x36F)) s"

text \<open>\<^verbatim>\<open>slugify\<close> of \<^verbatim>\<open>manual-enrich.ts\<close>.\<close>

definition slugify_manual_enrich :: "jsstring \<Rightarrow> jsstring" where
  "slugify_manual_enrich name =
     trim_hyphen (replace_non_alnum (strip_combining (normalize_NFD (toLowerCase name))))"

section \<open>Listings of the events service\<close>

text \<open>
  The interfaces \<^verbatim>\<open>RAEvent\<close> and \<^verbatim>\<open>RAEventListing\<close> of \<^verbatim>\<open>ra-client.ts\<close>. A field is an
  option where the code reads it through \<^verbatim>\<open>?.\<close> or tests it for truthiness.
\<close>

record ra_country =
  rc_id :: jsstring
  rc_name :: jsstring

record ra_area =
  ra_id :: jsstring
  ra_name :: jsstring
  ra_country :: "ra_country option"

record ra_venue =
  rv_id :: jsstring
  rv_name :: jsstring
  rv_address :: jsstring
  rv_area :: "ra_area option"

record ra_artist =
  art_id :: jsstring
  art_name :: jsstring

record ra_event =
  e_id :: jsstring
  e_title :: jsstring
  e_date :: "jsstring option"
  e_startTime :: "jsstring option"
  e_endTime :: "jsstring option"
  e_contentUrl :: "jsstring option"
  e_attending :: int
  e_images :: "jsstring list option"
  e_venue :: "ra_venue option"
  e_artists :: "ra_artist list option"

record ra_listing =
  l_id :: jsstring
  l_listingDate :: jsstring
  l_event :: ra_event

text \<open>\<^verbatim>\<open>x || null\<close> on a string that may be missing: the empty string is falsy.\<close>

definition or_null :: "jsstring option \<Rightarrow> jsstring option" where
  "or_null x = (case x of None \<Rightarrow> None | Some s \<Rightarrow> if s = [] then None else Some s)"

text \<open>\<^verbatim>\<open>d?.split("T")[0] || null\<close>.\<close>

definition date_part :: "jsstring option \<Rightarrow> jsstring option" where
  "date_part d = or_null (map_option (takeWhile (\<lambda>c. c \<noteq> 0x54)) d)"

text \<open>\<^verbatim>\<open>t?.split("T")[1]?.slice(0, 5) || null\<close>.\<close>

definition time_part :: "jsstring option \<Rightarrow> jsstring option" where
  "time_part t =
     or_null (case t of
        None \<Rightarrow> None
      | Some s \<Rightarrow>
          (case dropWhile (\<lambda>c. c \<noteq> 0x54) s of
             [] \<Rightarrow> None
           | _ # rest \<Rightarrow> Some (take 5 (takeWhile (\<lambda>c. c \<noteq> 0x54) rest))))"

section \<open>The relational store\<close>

text \<open>
  The tables of \<^verbatim>\<open>schema.ts\<close> that the sync reads and writes, with the columns it
  sets. A primary key (a random UUID in the schema) is drawn from the counter
  \<open>next_uuid\<close>. Rows are kept in insertion order.
\<close>

datatype error = Error (message: jsstring)

record venue_row =
  v_id :: nat
  v_name :: jsstring
  v_city :: "jsstring option"
  v_country :: "jsstring option"
  v_address :: "jsstring option"

record artist_row =
  a_id :: nat
  a_name :: jsstring
  a_slug :: jsstring
  a_raUrl :: "jsstring option"

record festival_row =
  f_id :: nat
  f_name :: jsstring
  f_slug :: jsstring
  f_startDate :: "jsstring option"
  f_endDate :: "jsstring option"
  f_venueId :: "nat option"
  f_websiteUrl :: "jsstring option"
  f_imageUrl :: "jsstring option"
  f_status :: jsstring
  f_raId :: jsstring
  f_attending :: int

record lineup_row =
  fl_id :: nat
  fl_festivalId :: nat
  fl_artistId :: nat
  fl_performanceDate :: "jsstring option"
  fl_startTime :: "jsstring option"
  fl_endTime :: "jsstring option"

record log_row =
  log_status :: jsstring
  log_festivalsFound :: nat
  log_artistsFound :: nat
  log_errors :: "jsstring list"
  log_duration :: int

text \<open>
  \<open>faults\<close> is what the connection will do to the coming calls, one entry per call:
  \<open>Some e\<close> makes the call throw \<open>e\<close> and leave the tables alone, \<open>None\<close> and the empty
  list let it through. It stands for a lost connection and for the rejections of the
  schema that the queries below do not decide themselves: a value too long for its
  column, a malformed date, a reference to a missing row.
\<close>

record store =
  venues :: "venue_row list"
  artists :: "artist_row list"
  festivals :: "festival_row list"
  festivalLineups :: "lineup_row list"
  scrapeLogs :: "log_row list"
  next_uuid :: nat
  faults :: "error option list"

definition db_call :: "(store \<Rightarrow> (error + 'a) \<times> store) \<Rightarrow> store \<Rightarrow> (error + 'a) \<times> store" where
  "db_call query st =
     (case faults st of
        [] \<Rightarrow> query st
      | None # rest \<Rightarrow> query (st\<lparr>faults := rest\<rparr>)
      | Some e # rest \<Rightarrow> (Inl e, st\<lparr>faults := rest\<rparr>))"

text \<open>
  The queries. A \<^verbatim>\<open>select ... where eq(column, key) limit(1)\<close> answers with the first
  matching row, if any. An insert appends one row and returns its new id; the unique
  constraints on \<^verbatim>\<open>artists.slug\<close> and \<^verbatim>\<open>festivals.slug\<close> reject a second row with the same
  slug.
\<close>

definition select_venue :: "jsstring \<Rightarrow> store \<Rightarrow> (error + venue_row option) \<times> store" where
  "select_venue name st = (Inr (find (\<lambda>v. v_name v = name) (venues st)), st)"

definition insert_venue ::
  "jsstring \<Rightarrow> jsstring option \<Rightarrow> jsstring option \<Rightarrow> jsstring option \<Rightarrow>
   store \<Rightarrow> (error + nat) \<times> store" where
  "insert_venue name city country address st =
     (Inr (next_uuid st),
      st\<lparr>venues := venues st @
            [\<lparr>v_id = next_uuid st, v_name = name, v_city = city, v_country = country,
              v_address = address\<rparr>],
         next_uuid := next_uuid st + 1\<rparr>)"

definition select_artist :: "jsstring \<Rightarrow> store \<Rightarrow> (error + artist_row option) \<times> store" where
  "select_artist slug st = (Inr (find (\<lambda>a. a_slug a = slug) (artists st)), st)"

definition insert_artist ::
  "jsstring \<Rightarrow> jsstring \<Rightarrow> jsstring option \<Rightarrow> store \<Rightarrow> (error + nat) \<times> store" where
  "insert_artist name slug raUrl st =
     (if slug \<in> set (map a_slug (artists st))
      then (Inl (Error (js ''duplicate key value violates unique constraint artists_slug_unique'')), st)
      else (Inr (next_uuid st),
            st\<lparr>artists := artists st @
                  [\<lparr>a_id = next_uuid st, a_name = name, a_slug = slug, a_raUrl = raUrl\<rparr>],
               next_uuid := next_uuid st + 1\<rparr>))"

definition select_festival :: "jsstring \<Rightarrow> store \<Rightarrow> (error + festival_row option) \<times> store" where
  "select_festival slug st = (Inr (find (\<lambda>f. f_slug f = slug) (festivals st)), st)"

definition insert_festival :: "festival_row \<Rightarrow> store \<Rightarrow> (error + nat) \<times> store" where
  "insert_festival values st =
     (if f_slug values \<in> set (map f_slug (festivals st))
      then (Inl (Error (js ''duplicate key value violates unique constraint festivals_slug_unique'')), st)
      else (Inr (next_uuid st),
            st\<lparr>festivals := festivals st @ [values\<lparr>f_id := next_uuid st\<rparr>],
               next_uuid := next_uuid st + 1\<rparr>))"

text \<open>
  The unique index \<^verbatim>\<open>unique_lineup\<close> is on the pair of the two foreign keys. The sync
  inserts with \<^verbatim>\<open>.onConflictDoNothing()\<close>: when a row with the pair is there already, the
  statement succeeds and inserts nothing.
\<close>

definition lineup_key :: "lineup_row \<Rightarrow> nat \<times> nat" where
  "lineup_key l = (fl_festivalId l, fl_artistId l)"

definition insert_lineup_onConflictDoNothing ::
  "lineup_row \<Rightarrow> store \<Rightarrow> (error + unit) \<times> store" where
  "insert_lineup_onConflictDoNothing values st =
     (if lineup_key values \<in> set (map lineup_key (festivalLineups st))
      then (Inr (), st)
      else (Inr (),
            st\<lparr>festivalLineups := festivalLineups st @ [values\<lparr>fl_id := next_uuid st\<rparr>],
               next_uuid := next_uuid st + 1\<rparr>))"

definition insert_scrapeLog :: "log_row \<Rightarrow> store \<Rightarrow> (error + unit) \<times> store" where
  "insert_scrapeLog values st = (Inr (), st\<lparr>scrapeLogs := scrapeLogs st @ [values]\<rparr>)"

section \<open>The upserts of \<^verbatim>\<open>sync.ts\<close>\<close>

definition upsertVenue :: "ra_event \<Rightarrow> store \<Rightarrow> (error + nat option) \<times> store" where
  "upsertVenue event st =
     (case e_venue event of
        None \<Rightarrow> (Inr None, st)
      | Some v \<Rightarrow>
          if rv_name v = [] then (Inr None, st)
          else
            (case db_call (select_venue (rv_name v)) st of
               (Inl err, st1) \<Rightarrow> (Inl err, st1)
             | (Inr (Some existing), st1) \<Rightarrow> (Inr (Some (v_id existing)), st1)
             | (Inr None, st1) \<Rightarrow>
                 (case db_call
                         (insert_venue (rv_name v)
                            (or_null (map_option ra_name (rv_area v)))
                            (or_null (map_option rc_name
                               (case rv_area v of None \<Rightarrow> None | Some a \<Rightarrow> ra_country a)))
                            (or_null (Some (rv_address v)))) st1 of
                    (Inl err, st2) \<Rightarrow> (Inl err, st2)
                  | (Inr inserted, st2) \<Rightarrow> (Inr (Some inserted), st2))))"

definition upsertArtist :: "ra_artist \<Rightarrow> store \<Rightarrow> (error + nat) \<times> store" where
  "upsertArtist artist st =
     (let slug = slugify (art_name artist) in
      case db_call (select_artist slug) st of
        (Inl err, st1) \<Rightarrow> (Inl err, st1)
      | (Inr (Some existing), st1) \<Rightarrow> (Inr (a_id existing), st1)
      | (Inr None, st1) \<Rightarrow>
          db_call (insert_artist (art_name artist) slug (Some (js ''https://ra.co/dj/'' @ slug))) st1)"

definition image_url :: "jsstring list option \<Rightarrow> jsstring option" where
  "image_url images =
     (case images of
        Some (filename # _) \<Rightarrow>
          if filename = [] then None
          else Some (js ''https://ra.co/images/events/flyer/'' @ filename)
      | _ \<Rightarrow> None)"

definition website_url :: "jsstring option \<Rightarrow> jsstring option" where
  "website_url contentUrl =
     (case or_null contentUrl of None \<Rightarrow> None | Some u \<Rightarrow> Some (js ''https://ra.co'' @ u))"

definition festival_slug :: "ra_event \<Rightarrow> jsstring" where
  "festival_slug event = slugify (e_title event) @ js ''-'' @ e_id event"

definition upsertFestival :: "ra_event \<Rightarrow> nat option \<Rightarrow> store \<Rightarrow> (error + nat) \<times> store" where
  "upsertFestival event venueId st =
     (let slug = festival_slug event in
      case db_call (select_festival slug) st of
        (Inl err, st1) \<Rightarrow> (Inl err, st1)
      | (Inr (Some existing), st1) \<Rightarrow> (Inr (f_id existing), st1)
      | (Inr None, st1) \<Rightarrow>
          db_call
            (insert_festival
               \<lparr>f_id = 0, f_name = e_title event, f_slug = slug,
                f_startDate = date_part (e_date event), f_endDate = date_part (e_date event),
                f_venueId = venueId, f_websiteUrl = website_url (e_contentUrl event),
                f_imageUrl = image_url (e_images event), f_status = js ''upcoming'',
                f_raId = e_id event, f_attending = e_attending event\<rparr>) st1)"

section \<open>The client: \<^verbatim>\<open>fetchRAEvents\<close>\<close>

text \<open>
  What one request for a page can come to: \<^verbatim>\<open>fetch\<close> rejects; the response is not
  \<^verbatim>\<open>ok\<close> (status and status text); the response is \<^verbatim>\<open>ok\<close> but \<^verbatim>\<open>res.json()\<close> rejects; or
  the body parses, with \<^verbatim>\<open>json.data?.eventListings?.data\<close> (missing or a list) and the
  declared \<^verbatim>\<open>totalResults\<close>. The remote service is a function from the page number to
  that outcome; area, date window and page size are fixed in it.
\<close>

datatype response =
    Rejected error
  | NotOk nat jsstring
  | BadJson error
  | Body "ra_listing list option" int

datatype console_line =
    ApiError nat jsstring
  | PageLine nat nat nat

record fetched =
  outcome :: "error + ra_listing list"
  console :: "console_line list"
  requests :: nat

text \<open>
  The \<^verbatim>\<open>while (true)\<close> loop, with the variables \<open>page\<close> and \<open>allEvents\<close> and the lines
  written to the console. It need not end: the result is \<open>None\<close> when it does not.
  \<open>requests\<close> is the number of requests sent, which is the last value of \<open>page\<close>. The
  pause between two pages is not modelled.
\<close>

partial_function (option) fetch_pages ::
  "(nat \<Rightarrow> response) \<Rightarrow> nat \<Rightarrow> ra_listing list \<Rightarrow> console_line list \<Rightarrow> fetched option" where
  "fetch_pages remote page allEvents out =
     (case remote page of
        Rejected err \<Rightarrow> Some \<lparr>outcome = Inl err, console = out, requests = page\<rparr>
      | NotOk status statusText \<Rightarrow>
          Some \<lparr>outcome = Inr allEvents, console = out @ [ApiError status statusText],
                requests = page\<rparr>
      | BadJson err \<Rightarrow> Some \<lparr>outcome = Inl err, console = out, requests = page\<rparr>
      | Body None totalResults \<Rightarrow>
          Some \<lparr>outcome = Inr allEvents, console = out, requests = page\<rparr>
      | Body (Some listings) totalResults \<Rightarrow>
          if listings = [] then Some \<lparr>outcome = Inr allEvents, console = out, requests = page\<rparr>
          else if totalResults \<le> int (length (allEvents @ listings))
          then Some \<lparr>outcome = Inr (allEvents @ listings),
                     console = out @ [PageLine page (length listings) (length (allEvents @ listings))],
                     requests = page\<rparr>
          else fetch_pages remote (page + 1) (allEvents @ listings)
                 (out @ [PageLine page (length listings) (length (allEvents @ listings))]))"

declare fetch_pages.simps [code]

definition fetchRAEvents :: "(nat \<Rightarrow> response) \<Rightarrow> fetched option" where
  "fetchRAEvents remote = fetch_pages remote 1 [] []"

section \<open>The orchestrator: \<^verbatim>\<open>syncArea\<close> and \<^verbatim>\<open>main\<close>\<close>

text \<open>
  The variables of \<^verbatim>\<open>syncArea\<close> (\<open>festivalsFound\<close>, \<open>artistsFound\<close>, \<open>errors\<close>) together
  with the store. The progress lines that \<^verbatim>\<open>syncArea\<close> and \<^verbatim>\<open>main\<close> print are left out.
\<close>

record sync_state =
  db :: store
  festivalsFound :: nat
  artistsFound :: nat
  errors :: "jsstring list"

definition artist_error :: "ra_artist \<Rightarrow> error \<Rightarrow> jsstring" where
  "artist_error artist err = js ''Artist '' @ art_name artist @ js '': '' @ message err"

definition event_error :: "ra_listing \<Rightarrow> error \<Rightarrow> jsstring" where
  "event_error listing err = js ''Event '' @ e_title (l_event listing) @ js '': '' @ message err"

definition area_error :: "jsstring \<Rightarrow> error \<Rightarrow> jsstring" where
  "area_error areaName err = js ''Area '' @ areaName @ js '': '' @ message err"

text \<open>The body of the loop over \<^verbatim>\<open>event.artists\<close>, with its \<^verbatim>\<open>try\<close>/\<^verbatim>\<open>catch\<close>.\<close>

definition artist_step :: "nat \<Rightarrow> ra_event \<Rightarrow> ra_artist \<Rightarrow> sync_state \<Rightarrow> sync_state" where
  "artist_step festivalId event artist s =
     (case upsertArtist artist (db s) of
        (Inl err, st1) \<Rightarrow> s\<lparr>db := st1, errors := errors s @ [artist_error artist err]\<rparr>
      | (Inr artistId, st1) \<Rightarrow>
          (case db_call
                  (insert_lineup_onConflictDoNothing
                     \<lparr>fl_id = 0, fl_festivalId = festivalId, fl_artistId = artistId,
                      fl_performanceDate = date_part (e_date event),
                      fl_startTime = time_part (e_startTime event),
                      fl_endTime = time_part (e_endTime event)\<rparr>) st1 of
             (Inl err, st2) \<Rightarrow>
               s\<lparr>db := st2, artistsFound := artistsFound s + 1,
                 errors := errors s @ [artist_error artist err]\<rparr>
           | (Inr _, st2) \<Rightarrow> s\<lparr>db := st2, artistsFound := artistsFound s + 1\<rparr>))"

fun artist_loop :: "nat \<Rightarrow> ra_event \<Rightarrow> ra_artist list \<Rightarrow> sync_state \<Rightarrow> sync_state" where
  "artist_loop festivalId event [] s = s"
| "artist_loop festivalId event (artist # rest) s =
     artist_loop festivalId event rest (artist_step festivalId event artist s)"

text \<open>The body of the loop over the listings, with its \<^verbatim>\<open>try\<close>/\<^verbatim>\<open>catch\<close>.\<close>

definition listing_step :: "ra_listing \<Rightarrow> sync_state \<Rightarrow> sync_state" where
  "listing_step listing s =
     (let event = l_event listing in
      case upsertVenue event (db s) of
        (Inl err, st1) \<Rightarrow> s\<lparr>db := st1, errors := errors s @ [event_error listing err]\<rparr>
      | (Inr venueId, st1) \<Rightarrow>
          (case upsertFestival event venueId st1 of
             (Inl err, st2) \<Rightarrow> s\<lparr>db := st2, errors := errors s @ [event_error listing err]\<rparr>
           | (Inr festivalId, st2) \<Rightarrow>
               artist_loop festivalId event
                 (case e_artists event of None \<Rightarrow> [] | Some as \<Rightarrow> as)
                 (s\<lparr>db := st2, festivalsFound := festivalsFound s + 1\<rparr>)))"

fun listing_loop :: "ra_listing list \<Rightarrow> sync_state \<Rightarrow> sync_state" where
  "listing_loop [] s = s"
| "listing_loop (listing # rest) s = listing_loop rest (listing_step listing s)"

text \<open>
  \<^verbatim>\<open>syncArea\<close>. The service answers a request for an area and a page; \<open>duration\<close> is the
  time the clock measures for the run. The outer \<^verbatim>\<open>catch\<close> is reached only when the
  client throws, since the two loops catch what their bodies throw. The insert into
  \<^verbatim>\<open>scrapeLogs\<close> is outside every \<^verbatim>\<open>try\<close>: when it throws, \<^verbatim>\<open>syncArea\<close> throws.
\<close>

record summary =
  sum_festivalsFound :: nat
  sum_artistsFound :: nat
  sum_errors :: "jsstring list"

definition syncArea ::
  "(nat \<Rightarrow> nat \<Rightarrow> response) \<Rightarrow> jsstring \<Rightarrow> nat \<Rightarrow> int \<Rightarrow> store \<Rightarrow>
   ((error + summary) \<times> store) option" where
  "syncArea service areaName areaId duration st =
     (case fetchRAEvents (service areaId) of
        None \<Rightarrow> None
      | Some got \<Rightarrow>
          (let s0 = \<lparr>db = st, festivalsFound = 0, artistsFound = 0, errors = []\<rparr>;
               s = (case outcome got of
                      Inl err \<Rightarrow> s0\<lparr>errors := errors s0 @ [area_error areaName err]\<rparr>
                    | Inr listings \<Rightarrow> listing_loop listings s0)
           in case db_call
                     (insert_scrapeLog
                        \<lparr>log_status = (if errors s \<noteq> [] then js ''partial'' else js ''success''),
                         log_festivalsFound = festivalsFound s,
                         log_artistsFound = artistsFound s,
                         log_errors = take 20 (errors s),
                         log_duration = duration\<rparr>) (db s) of
                (Inl err, st') \<Rightarrow> Some (Inl err, st')
              | (Inr _, st') \<Rightarrow>
                  Some (Inr \<lparr>sum_festivalsFound = festivalsFound s,
                             sum_artistsFound = artistsFound s,
                             sum_errors = errors s\<rparr>, st')))"


fun sync_areas ::
  "(nat \<Rightarrow> nat \<Rightarrow> response) \<Rightarrow> (nat \<Rightarrow> int) \<Rightarrow> (jsstring \<times> nat) list \<Rightarrow> nat \<times> nat \<Rightarrow> store \<Rightarrow>
   ((error + nat \<times> nat) \<times> store) option" where
  "sync_areas service duration [] totals st = Some (Inr totals, st)"
| "sync_areas service duration ((name, areaId) # rest) (totalFestivals, totalArtists) st =
     (case syncArea service name areaId (duration areaId) st of
        None \<Rightarrow> None
      | Some (Inl err, st') \<Rightarrow> Some (Inl err, st')
      | Some (Inr result, st') \<Rightarrow>
          sync_areas service duration rest
            (totalFestivals + sum_festivalsFound result,
             totalArtists + sum_artistsFound result) st')"


section \<open>Notions used to state the properties\<close>

text \<open>
  The items of page \<open>p\<close> of a service, the concatenation of the pages 1 to \<open>p\<close>, and
  three conditions on a page: it has no items; it has some; its items bring the count
  to the total it declares.
\<close>

definition items :: "(nat \<Rightarrow> response) \<Rightarrow> nat \<Rightarrow> ra_listing list" where
  "items remote p = (case remote p of Body (Some listings) _ \<Rightarrow> listings | _ \<Rightarrow> [])"

definition pages_upto :: "(nat \<Rightarrow> response) \<Rightarrow> nat \<Rightarrow> ra_listing list" where
  "pages_upto remote p = concat (map (items remote) [1..<Suc p])"

definition zero_items :: "response \<Rightarrow> bool" where
  "zero_items r =
     (case r of Body None _ \<Rightarrow> True | Body (Some listings) _ \<Rightarrow> listings = [] | _ \<Rightarrow> False)"

definition nonempty_page :: "response \<Rightarrow> bool" where
  "nonempty_page r = (case r of Body (Some listings) _ \<Rightarrow> listings \<noteq> [] | _ \<Rightarrow> False)"

definition total_reached :: "(nat \<Rightarrow> response) \<Rightarrow> nat \<Rightarrow> bool" where
  "total_reached remote p =
     (case remote p of
        Body (Some listings) totalResults \<Rightarrow>
          listings \<noteq> [] \<and> totalResults \<le> int (length (pages_upto remote p))
      | _ \<Rightarrow> False)"

text \<open>The state of \<^verbatim>\<open>syncArea\<close> when it reaches the insert into the run log.\<close>

definition before_log :: "fetched \<Rightarrow> jsstring \<Rightarrow> store \<Rightarrow> sync_state" where
  "before_log got areaName st =
     (case outcome got of
        Inl err \<Rightarrow> \<lparr>db = st, festivalsFound = 0, artistsFound = 0, errors = [area_error areaName err]\<rparr>
      | Inr listings \<Rightarrow>
          listing_loop listings \<lparr>db = st, festivalsFound = 0, artistsFound = 0, errors = []\<rparr>)"

definition log_of :: "sync_state \<Rightarrow> int \<Rightarrow> log_row" where
  "log_of s duration =
     \<lparr>log_status = (if errors s \<noteq> [] then js ''partial'' else js ''success''),
      log_festivalsFound = festivalsFound s, log_artistsFound = artistsFound s,
      log_errors = take 20 (errors s), log_duration = duration\<rparr>"

text \<open>
  \<^verbatim>\<open>event.artists || []\<close>; an artist that has its row and the lineup row to a festival; a
  listing whose venue (if it names one), festival and artists all have their rows, the
  artists linked to the festival row that the lookup by slug finds.
\<close>

definition artists_of :: "ra_event \<Rightarrow> ra_artist list" where
  "artists_of event = (case e_artists event of None \<Rightarrow> [] | Some as \<Rightarrow> as)"

definition linked :: "store \<Rightarrow> nat \<Rightarrow> ra_artist \<Rightarrow> bool" where
  "linked st festivalId artist =
     (case find (\<lambda>x. a_slug x = slugify (art_name artist)) (artists st) of
        None \<Rightarrow> False
      | Some row \<Rightarrow> (festivalId, a_id row) \<in> set (map lineup_key (festivalLineups st)))"

definition reconciled :: "store \<Rightarrow> ra_listing \<Rightarrow> bool" where
  "reconciled st listing =
     ((case e_venue (l_event listing) of
         None \<Rightarrow> True
       | Some v \<Rightarrow> rv_name v = [] \<or> find (\<lambda>x. v_name x = rv_name v) (venues st) \<noteq> None) \<and>
      (case find (\<lambda>x. f_slug x = festival_slug (l_event listing)) (festivals st) of
         None \<Rightarrow> False
       | Some row \<Rightarrow> list_all (linked st (f_id row)) (artists_of (l_event listing))))"

text \<open>
  The four tables of the second store extend those of the first by rows at the end; the
  four tables are the same in both; the number of artist occurrences in a list of
  listings; the state in which \<^verbatim>\<open>syncArea\<close> starts.
\<close>

definition grows :: "store \<Rightarrow> store \<Rightarrow> bool" where
  "grows st st' =
     ((\<exists>xs. venues st' = venues st @ xs) \<and> (\<exists>xs. artists st' = artists st @ xs) \<and>
      (\<exists>xs. festivals st' = festivals st @ xs) \<and>
      (\<exists>xs. festivalLineups st' = festivalLineups st @ xs))"

definition same_rows :: "store \<Rightarrow> store \<Rightarrow> bool" where
  "same_rows st st' =
     (venues st' = venues st \<and> artists st' = artists st \<and> festivals st' = festivals st \<and>
      festivalLineups st' = festivalLineups st)"

definition artist_slots :: "ra_listing list \<Rightarrow> nat" where
  "artist_slots listings = sum_list (map (\<lambda>l. length (artists_of (l_event l))) listings)"

definition fresh :: "store \<Rightarrow> sync_state" where
  "fresh st = \<lparr>db = st, festivalsFound = 0, artistsFound = 0, errors = []\<rparr>"

section \<open>Sample data\<close>

definition empty_store :: store where
  "empty_store =
     \<lparr>venues = [], artists = [], festivals = [], festivalLineups = [], scrapeLogs = [],
      next_uuid = 0, faults = []\<rparr>"

definition bob_moses :: ra_artist where
  "bob_moses = \<lparr>art_id = js ''1'', art_name = js ''Bob Moses''\<rparr>"

definition clozee :: ra_artist where
  "clozee = \<lparr>art_id = js ''2'', art_name = js ''CloZee''\<rparr>"

definition envision :: ra_listing where
  "envision =
     \<lparr>l_id = js ''1'', l_listingDate = js ''2026-02-23'',
      l_event =
        \<lparr>e_id = js ''123'', e_title = js ''Envision Festival'',
         e_date = Some (js ''2026-02-23T00:00:00.000''),
         e_startTime = Some (js ''2026-02-23T12:00:00.000''), e_endTime = None,
         e_contentUrl = Some (js ''/events/123''), e_attending = 10, e_images = None,
         e_venue =
           Some \<lparr>rv_id = js ''9'', rv_name = js ''Rancho La Merced'', rv_address = [],
                 rv_area = Some \<lparr>ra_id = js ''7'', ra_name = js ''Uvita'', ra_country = None\<rparr>\<rparr>,
         e_artists = Some [bob_moses, clozee]\<rparr>\<rparr>"

text \<open>A service with pages of two, one and no items, declaring ten results.\<close>

definition shrinking_pages :: "nat \<Rightarrow> response" where
  "shrinking_pages page =
     (if page = 1 then Body (Some [envision, envision]) 10
      else if page = 2 then Body (Some [envision]) 10
      else Body (Some []) 10)"

text \<open>A service whose second page is answered with status 503.\<close>

definition failing_second_page :: "nat \<Rightarrow> response" where
  "failing_second_page page =
     (if page = 1 then Body (Some [envision]) 10
      else NotOk 503 (js ''Service Unavailable''))"

text \<open>A service that has one item on every page and declares three results.\<close>

definition always_one :: "nat \<Rightarrow> response" where
  "always_one page = Body (Some [envision]) 3"

text \<open>A service with the one listing above on its first page.\<close>

definition sample_service :: "nat \<Rightarrow> nat \<Rightarrow> response" where
  "sample_service area page =
     (if page = 1 then Body (Some [envision]) 1 else Body (Some []) 1)"

text \<open>
  The rows that a run over \<open>sample_service\<close> inserts into the empty store, the store
  after that run, a store whose sixth call fails, and the store after a run on it.
\<close>

definition rancho_row :: venue_row where
  "rancho_row =
     \<lparr>v_id = 0, v_name = js ''Rancho La Merced'', v_city = Some (js ''Uvita''),
      v_country = None, v_address = None\<rparr>"

definition envision_row :: festival_row where
  "envision_row =
     \<lparr>f_id = 1, f_name = js ''Envision Festival'', f_slug = js ''envision-festival-123'',
      f_startDate = Some (js ''2026-02-23''), f_endDate = Some (js ''2026-02-23''),
      f_venueId = Some 0, f_websiteUrl = Some (js ''https://ra.co/events/123''),
      f_imageUrl = None, f_status = js ''upcoming'', f_raId = js ''123'', f_attending = 10\<rparr>"

definition bob_moses_row :: "nat \<Rightarrow> artist_row" where
  "bob_moses_row i =
     \<lparr>a_id = i, a_name = js ''Bob Moses'', a_slug = js ''bob-moses'',
      a_raUrl = Some (js ''https://ra.co/dj/bob-moses'')\<rparr>"

definition clozee_row :: "nat \<Rightarrow> artist_row" where
  "clozee_row i =
     \<lparr>a_id = i, a_name = js ''CloZee'', a_slug = js ''clozee'',
      a_raUrl = Some (js ''https://ra.co/dj/clozee'')\<rparr>"

definition envision_slot :: "nat \<Rightarrow> nat \<Rightarrow> lineup_row" where
  "envision_slot i artistId =
     \<lparr>fl_id = i, fl_festivalId = 1, fl_artistId = artistId,
      fl_performanceDate = Some (js ''2026-02-23''), fl_startTime = Some (js ''12:00''),
      fl_endTime = None\<rparr>"

definition synced_store :: store where
  "synced_store =
     \<lparr>venues = [rancho_row], artists = [bob_moses_row 2, clozee_row 4],
      festivals = [envision_row],
      festivalLineups = [envision_slot 3 2, envision_slot 5 4],
      scrapeLogs =
        [\<lparr>log_status = js ''success'', log_festivalsFound = 1, log_artistsFound = 2,
          log_errors = [], log_duration = 5\<rparr>],
      next_uuid = 6, faults = []\<rparr>"

definition flaky_store :: store where
  "flaky_store =
     empty_store\<lparr>faults := [None, None, None, None, None, Some (Error (js ''connection reset''))]\<rparr>"

definition flaky_synced :: store where
  "flaky_synced =
     \<lparr>venues = [rancho_row], artists = [clozee_row 2], festivals = [envision_row],
      festivalLineups = [envision_slot 3 2],
      scrapeLogs =
        [\<lparr>log_status = js ''partial'', log_festivalsFound = 1, log_artistsFound = 1,
          log_errors = [js ''Artist Bob Moses: connection reset''], log_duration = 5\<rparr>],
      next_uuid = 4, faults = []\<rparr>"

text \<open>
  A listing with three artists, and a store whose eighth call fails: the call that looks
  up the second artist.
\<close>

definition tipper :: ra_artist where
  "tipper = \<lparr>art_id = js ''3'', art_name = js ''Tipper''\<rparr>"

definition trio :: ra_listing where
  "trio = envision\<lparr>l_event := (l_event envision)\<lparr>e_artists := Some [bob_moses, clozee, tipper]\<rparr>\<rparr>"

definition second_artist_fails :: store where
  "second_artist_fails =
     empty_store\<lparr>faults := [None, None, None, None, None, None, None,
                             Some (Error (js ''connection reset''))]\<rparr>"



section \<open>The slug normalisation\<close>

lemma slugify_scrape_extra_eq: "slugify_scrape_extra text = slugify text"
  by (simp add: slugify_scrape_extra_def slugify_def)

text \<open>
  What holds of the three functions: names that lowercase to the same string get the
  same slug, and on ASCII names the \<^verbatim>\<open>slugify\<close> of \<^verbatim>\<open>manual-enrich.ts\<close> agrees with the
  other two.
\<close>

lemma slugify_casing: "toLowerCase a = toLowerCase b \<Longrightarrow> slugify a = slugify b"
  by (simp add: slugify_def)

lemma nfd_ascii:
  assumes "\<forall>c \<in> set t. c < 0x80"
  shows "normalize_NFD t = t"
  using assms
proof (induction t)
  case Nil
  show ?case by (simp add: normalize_NFD_def)
next
  case (Cons c t)
  then have "c < 0x80" by simp
  then have "map_of latin1_decomposition c = None"
    by (simp add: latin1_decomposition_def)
  with Cons show ?case by (simp add: normalize_NFD_def)
qed

lemma lower_ascii: "c < 0x80 \<Longrightarrow> lower_unit c < 0x80"
  by (auto simp: lower_unit_def)

lemma slugify_manual_enrich_ascii:
  assumes "\<forall>c \<in> set t. c < 0x80"
  shows "slugify_manual_enrich t = slugify t"
proof -
  from assms have low: "\<forall>c \<in> set (toLowerCase t). c < 0x80"
    by (auto simp: toLowerCase_def lower_ascii)
  then have "strip_combining (toLowerCase t) = toLowerCase t"
    by (auto simp: strip_combining_def filter_id_conv)
  with nfd_ascii[OF low] show ?thesis
    by (simp add: slugify_manual_enrich_def slugify_def)
qed

lemmas slug_eval =
  js_def toLowerCase_def lower_unit_def alnum_def trim_hyphen_def normalize_NFD_def
  strip_combining_def latin1_decomposition_def

text \<open>
  C2. \<^verbatim>\<open>slugify\<close> of \<^verbatim>\<open>sync.ts\<close> has no step that strips diacritics. In "Caf" followed
  by U+00E9 (e with acute) the last letter is outside \<^verbatim>\<open>[a-z0-9]\<close>, becomes a hyphen and is
  trimmed, so the name and its unaccented spelling "Cafe" get different slugs.
\<close>

theorem slugify_diacritic_not_stripped:
  "slugify (js ''Caf'' @ [0xE9]) = js ''caf'' \<and> slugify (js ''Cafe'') = js ''cafe''"
  by (simp add: slugify_def slug_eval)

text \<open>
  C9. On the name U+00C2 "me" (A with circumflex, then "me") the \<^verbatim>\<open>slugify\<close> of
  \<^verbatim>\<open>sync.ts\<close> and its copy in \<^verbatim>\<open>scrape-extra.ts\<close> return "me", and the one of
  \<^verbatim>\<open>manual-enrich.ts\<close> returns "ame": the three are not one function.
\<close>

theorem slugify_copies_disagree:
  "slugify (0xC2 # js ''me'') = js ''me'' \<and>
   slugify_scrape_extra (0xC2 # js ''me'') = js ''me'' \<and>
   slugify_manual_enrich (0xC2 # js ''me'') = js ''ame''"
  by (simp add: slugify_def slugify_scrape_extra_def slugify_manual_enrich_def slug_eval)

section \<open>Pagination\<close>

lemma pages_upto_Suc: "pages_upto remote (Suc p) = pages_upto remote p @ items remote (Suc p)"
  by (simp add: pages_upto_def)

lemma pages_upto_0: "pages_upto remote 0 = []"
  by (simp add: pages_upto_def)

lemma fetch_pages_continue:
  assumes "nonempty_page (remote (Suc p))" "\<not> total_reached remote (Suc p)"
  shows "\<exists>out'. fetch_pages remote (Suc p) (pages_upto remote p) out =
           fetch_pages remote (Suc (Suc p)) (pages_upto remote (Suc p)) out'"
  using assms
  by (subst fetch_pages.simps)
     (auto simp: nonempty_page_def total_reached_def pages_upto_Suc items_def
           split: response.splits option.splits)

lemma fetch_pages_advance:
  assumes "\<forall>p. 1 \<le> p \<and> p \<le> n \<longrightarrow> nonempty_page (remote p) \<and> \<not> total_reached remote p"
  shows "\<exists>out'. fetch_pages remote 1 [] [] =
           fetch_pages remote (Suc n) (pages_upto remote n) out'"
  using assms
proof (induction n)
  case 0
  then show ?case by (auto simp: pages_upto_0)
next
  case (Suc n)
  then obtain out1 where
    1: "fetch_pages remote 1 [] [] = fetch_pages remote (Suc n) (pages_upto remote n) out1"
    by auto
  from Suc.prems have "nonempty_page (remote (Suc n))" "\<not> total_reached remote (Suc n)"
    by auto
  then show ?case using fetch_pages_continue[of remote n out1] 1 by auto
qed

lemma fetch_pages_zero:
  assumes "zero_items (remote (Suc p))"
  shows "fetch_pages remote (Suc p) (pages_upto remote p) out =
           Some \<lparr>outcome = Inr (pages_upto remote (Suc p)), console = out, requests = Suc p\<rparr>"
  using assms
  by (subst fetch_pages.simps)
     (auto simp: zero_items_def pages_upto_Suc items_def split: response.splits option.splits)

lemma fetch_pages_total:
  assumes "total_reached remote (Suc p)"
  shows "\<exists>out'. fetch_pages remote (Suc p) (pages_upto remote p) out =
           Some \<lparr>outcome = Inr (pages_upto remote (Suc p)), console = out', requests = Suc p\<rparr>"
  using assms
  by (subst fetch_pages.simps)
     (auto simp: total_reached_def pages_upto_Suc items_def split: response.splits option.splits)

lemma fetch_pages_not_ok:
  assumes "remote (Suc p) = NotOk status statusText"
  shows "fetch_pages remote (Suc p) (pages_upto remote p) out =
           Some \<lparr>outcome = Inr (pages_upto remote p),
                 console = out @ [ApiError status statusText], requests = Suc p\<rparr>"
  using assms
  by (subst fetch_pages.simps) auto

text \<open>The loop ends as soon as some page from the current one on has no items.\<close>

lemma fetch_pages_terminates:
  assumes "zero_items (remote k)" "page \<le> k"
  shows "\<exists>r. fetch_pages remote page allEvents out = Some r"
  using assms
proof (induction "k - page" arbitrary: page allEvents out)
  case 0
  then have "page = k" by simp
  with 0 show ?case
    by (subst fetch_pages.simps)
       (auto simp: zero_items_def split: response.splits option.splits)
next
  case (Suc d)
  from Suc.hyps(2) have "d = k - Suc page" "Suc page \<le> k" by auto
  with Suc.hyps(1) Suc.prems(1)
  have next_page: "\<And>a b. \<exists>r. fetch_pages remote (Suc page) a b = Some r"
    by blast
  show ?case
    by (subst fetch_pages.simps) (auto split: response.splits option.splits intro: next_page)
qed

lemma fetch_stops_at_total:
  assumes "1 \<le> m" and "total_reached remote m"
    and "\<forall>p. 1 \<le> p \<and> p < m \<longrightarrow> nonempty_page (remote p) \<and> \<not> total_reached remote p"
  shows "\<exists>r. fetchRAEvents remote = Some r \<and> requests r = m \<and>
           outcome r = Inr (pages_upto remote m)"
proof -
  from assms(1) obtain n where n: "m = Suc n" by (cases m) auto
  have "\<forall>p. 1 \<le> p \<and> p \<le> n \<longrightarrow> nonempty_page (remote p) \<and> \<not> total_reached remote p"
    using assms(3) n by auto
  from fetch_pages_advance[OF this] obtain out1 where
    adv: "fetch_pages remote 1 [] [] = fetch_pages remote (Suc n) (pages_upto remote n) out1"
    by auto
  from assms(2) n have "total_reached remote (Suc n)" by simp
  then show ?thesis
    using fetch_pages_total[of remote n out1] adv n
    by (auto simp: fetchRAEvents_def)
qed

lemma fetch_stops_at_first:
  assumes "1 \<le> k" and "zero_items (remote k)"
    and nonempty: "\<forall>p. 1 \<le> p \<and> p < k \<longrightarrow> nonempty_page (remote p)"
  shows "\<exists>r m. fetchRAEvents remote = Some r \<and> 1 \<le> m \<and> m \<le> k \<and> requests r = m \<and>
             outcome r = Inr (pages_upto remote m) \<and>
             (m = k \<or> total_reached remote m) \<and>
             (\<forall>p. 1 \<le> p \<and> p < m \<longrightarrow> \<not> total_reached remote p)"
proof -
  define stop where "stop p = (1 \<le> p \<and> (p = k \<or> total_reached remote p))" for p
  define m where "m = (LEAST p. stop p)"
  have "stop k" using assms(1) by (simp add: stop_def)
  then have sm: "stop m" and least: "\<And>p. p < m \<Longrightarrow> \<not> stop p" and mk: "m \<le> k"
    unfolding m_def by (auto intro: LeastI dest: not_less_Least simp: Least_le)
  from sm obtain n where n: "m = Suc n" by (cases m) (auto simp: stop_def)
  have before: "\<forall>p. 1 \<le> p \<and> p \<le> n \<longrightarrow> nonempty_page (remote p) \<and> \<not> total_reached remote p"
  proof (intro allI impI)
    fix p assume p: "1 \<le> p \<and> p \<le> n"
    then have "p < m" using n by simp
    with least[of p] p mk nonempty show "nonempty_page (remote p) \<and> \<not> total_reached remote p"
      by (auto simp: stop_def)
  qed
  from fetch_pages_advance[OF before] obtain out1 where
    adv: "fetch_pages remote 1 [] [] = fetch_pages remote (Suc n) (pages_upto remote n) out1"
    by auto
  have "\<exists>out'. fetch_pages remote (Suc n) (pages_upto remote n) out1 =
           Some \<lparr>outcome = Inr (pages_upto remote (Suc n)), console = out', requests = Suc n\<rparr>"
  proof (cases "total_reached remote m")
    case True
    then show ?thesis using fetch_pages_total[of remote n out1] n by simp
  next
    case False
    with sm have "m = k" by (simp add: stop_def)
    with assms(2) n have "zero_items (remote (Suc n))" by simp
    then show ?thesis using fetch_pages_zero[of remote n out1] by auto
  qed
  then obtain out2 where "fetchRAEvents remote =
      Some \<lparr>outcome = Inr (pages_upto remote m), console = out2, requests = m\<rparr>"
    using adv n by (auto simp: fetchRAEvents_def)
  moreover have "\<forall>p. 1 \<le> p \<and> p < m \<longrightarrow> \<not> total_reached remote p"
    using least by (auto simp: stop_def)
  ultimately show ?thesis using sm mk by (auto simp: stop_def)
qed

text \<open>
  C4. When some page \<open>k\<close> of the service has no items, \<^verbatim>\<open>fetchRAEvents\<close> returns. When,
  moreover, the pages before \<open>k\<close> are answered with items, it returns after \<open>m\<close>
  requests, where \<open>m\<close> is the first page at which the count reaches the declared total,
  or \<open>k\<close> if there is none; the result is the pages 1 to \<open>m\<close> one after the other in
  order. And whenever the count reaches the declared total at a page \<open>n\<close> that is
  requested (the pages before it had items and did not reach the total), whatever the
  pages after \<open>n\<close> hold, it returns the pages 1 to \<open>n\<close> after exactly \<open>n\<close> requests.
\<close>

theorem fetchRAEvents_pagination:
  "(1 \<le> k \<and> zero_items (remote k) \<longrightarrow> (\<exists>r. fetchRAEvents remote = Some r)) \<and>
   (1 \<le> k \<and> zero_items (remote k) \<and> (\<forall>p. 1 \<le> p \<and> p < k \<longrightarrow> nonempty_page (remote p)) \<longrightarrow>
      (\<exists>r m. fetchRAEvents remote = Some r \<and> 1 \<le> m \<and> m \<le> k \<and> requests r = m \<and>
         outcome r = Inr (pages_upto remote m) \<and>
         (m = k \<or> total_reached remote m) \<and>
         (\<forall>p. 1 \<le> p \<and> p < m \<longrightarrow> \<not> total_reached remote p))) \<and>
   (1 \<le> n \<and> total_reached remote n \<and>
    (\<forall>p. 1 \<le> p \<and> p < n \<longrightarrow> nonempty_page (remote p) \<and> \<not> total_reached remote p) \<longrightarrow>
      (\<exists>r. fetchRAEvents remote = Some r \<and> requests r = n \<and>
         outcome r = Inr (pages_upto remote n)))"
proof (intro conjI impI)
  assume "1 \<le> k \<and> zero_items (remote k)"
  then show "\<exists>r. fetchRAEvents remote = Some r"
    unfolding fetchRAEvents_def by (intro fetch_pages_terminates) auto
next
  assume "1 \<le> k \<and> zero_items (remote k) \<and> (\<forall>p. 1 \<le> p \<and> p < k \<longrightarrow> nonempty_page (remote p))"
  then show "\<exists>r m. fetchRAEvents remote = Some r \<and> 1 \<le> m \<and> m \<le> k \<and> requests r = m \<and>
         outcome r = Inr (pages_upto remote m) \<and>
         (m = k \<or> total_reached remote m) \<and>
         (\<forall>p. 1 \<le> p \<and> p < m \<longrightarrow> \<not> total_reached remote p)"
    using fetch_stops_at_first[of k remote] by blast
next
  assume "1 \<le> n \<and> total_reached remote n \<and>
    (\<forall>p. 1 \<le> p \<and> p < n \<longrightarrow> nonempty_page (remote p) \<and> \<not> total_reached remote p)"
  then show "\<exists>r. fetchRAEvents remote = Some r \<and> requests r = n \<and>
         outcome r = Inr (pages_upto remote n)"
    using fetch_stops_at_total[of n remote] by blast
qed

theorem fetchRAEvents_pagination_witness:
  "(\<exists>r. fetchRAEvents shrinking_pages = Some r \<and> requests r = 3 \<and>
       outcome r = Inr [envision, envision, envision]) \<and>
   (\<exists>r. fetchRAEvents always_one = Some r \<and> requests r = 3 \<and>
       outcome r = Inr [envision, envision, envision])"
proof -
  have z: "zero_items (shrinking_pages 3)"
    by (simp add: zero_items_def shrinking_pages_def)
  have ne: "\<forall>p. 1 \<le> p \<and> p < 3 \<longrightarrow> nonempty_page (shrinking_pages p)"
    by (auto simp: nonempty_page_def shrinking_pages_def)
  have nt: "\<not> total_reached shrinking_pages p" for p
    by (simp add: total_reached_def shrinking_pages_def pages_upto_def items_def upt_rec)
  have pages: "pages_upto shrinking_pages 3 = [envision, envision, envision]"
    by (simp add: pages_upto_def items_def shrinking_pages_def upt_rec)
  from fetchRAEvents_pagination[of 3 shrinking_pages, THEN conjunct2, THEN conjunct1] z ne
  obtain r m where "fetchRAEvents shrinking_pages = Some r" "requests r = m"
    "outcome r = Inr (pages_upto shrinking_pages m)" "m = 3 \<or> total_reached shrinking_pages m"
    by auto
  with nt pages have 1: "\<exists>r. fetchRAEvents shrinking_pages = Some r \<and> requests r = 3 \<and>
       outcome r = Inr [envision, envision, envision]" by auto
  have len: "pages_upto always_one (Suc 0) = [envision]"
    "pages_upto always_one 2 = [envision, envision]"
    "pages_upto always_one 3 = [envision, envision, envision]"
    by (simp_all add: pages_upto_def items_def always_one_def upt_rec)
  have reached: "total_reached always_one 3"
    by (simp add: total_reached_def len always_one_def)
  have before: "\<forall>p. 1 \<le> p \<and> p < 3 \<longrightarrow>
      nonempty_page (always_one p) \<and> \<not> total_reached always_one p"
  proof (intro allI impI)
    fix p :: nat assume "1 \<le> p \<and> p < 3"
    then have "p = 1 \<or> p = 2" by auto
    then show "nonempty_page (always_one p) \<and> \<not> total_reached always_one p"
      by (auto simp: nonempty_page_def total_reached_def len always_one_def)
  qed
  from fetchRAEvents_pagination[of _ always_one 3, THEN conjunct2, THEN conjunct2] reached before
  have 2: "\<exists>r. fetchRAEvents always_one = Some r \<and> requests r = 3 \<and>
       outcome r = Inr [envision, envision, envision]" by (simp add: len)
  from 1 2 show ?thesis by simp
qed

text \<open>
  C7. When the request for page \<open>k\<close> is made (the pages before it had items and did not
  reach the declared total) and its response is not \<^verbatim>\<open>ok\<close>, \<^verbatim>\<open>fetchRAEvents\<close> writes the
  status to the console, makes no further request and returns, without throwing, the
  listings of the pages 1 to \<open>k - 1\<close>.
\<close>

theorem fetchRAEvents_not_ok:
  assumes "1 \<le> k" and "remote k = NotOk status statusText"
    and "\<forall>p. 1 \<le> p \<and> p < k \<longrightarrow> nonempty_page (remote p) \<and> \<not> total_reached remote p"
  shows "\<exists>r. fetchRAEvents remote = Some r \<and> requests r = k \<and>
           outcome r = Inr (pages_upto remote (k - 1)) \<and>
           console r \<noteq> [] \<and> last (console r) = ApiError status statusText"
proof -
  from assms(1) obtain n where n: "k = Suc n" by (cases k) auto
  have "\<forall>p. 1 \<le> p \<and> p \<le> n \<longrightarrow> nonempty_page (remote p) \<and> \<not> total_reached remote p"
    using assms(3) n by auto
  from fetch_pages_advance[OF this] obtain out1 where
    adv: "fetch_pages remote 1 [] [] = fetch_pages remote (Suc n) (pages_upto remote n) out1"
    by auto
  from assms(2) n have "remote (Suc n) = NotOk status statusText" by simp
  then show ?thesis
    using fetch_pages_not_ok[of remote n status statusText out1] adv n
    by (simp add: fetchRAEvents_def)
qed

theorem fetchRAEvents_not_ok_witness:
  "\<exists>r. fetchRAEvents failing_second_page = Some r \<and> requests r = 2 \<and>
       outcome r = Inr [envision] \<and>
       last (console r) = ApiError 503 (js ''Service Unavailable'')"
proof -
  have bad: "failing_second_page 2 = NotOk 503 (js ''Service Unavailable'')"
    by (simp add: failing_second_page_def)
  have nt: "\<not> total_reached failing_second_page 1"
    by (simp add: total_reached_def failing_second_page_def pages_upto_def items_def)
  have ok: "\<forall>p. 1 \<le> p \<and> p < 2 \<longrightarrow>
              nonempty_page (failing_second_page p) \<and> \<not> total_reached failing_second_page p"
  proof (intro allI impI)
    fix p :: nat assume "1 \<le> p \<and> p < 2"
    then have "p = 1" by simp
    with nt show "nonempty_page (failing_second_page p) \<and> \<not> total_reached failing_second_page p"
      by (simp add: nonempty_page_def failing_second_page_def)
  qed
  have "pages_upto failing_second_page (2 - 1) = [envision]"
    by (simp add: pages_upto_def items_def failing_second_page_def)
  with fetchRAEvents_not_ok[of 2 failing_second_page 503 "js ''Service Unavailable''"] bad ok
  show ?thesis by auto
qed

section \<open>What the calls of the store do\<close>

lemma db_call_alt:
  "db_call q st =
     (case faults st of
        Some e # rest \<Rightarrow> (Inl e, st\<lparr>faults := rest\<rparr>)
      | _ \<Rightarrow> q (st\<lparr>faults := tl (faults st)\<rparr>))"
  by (cases st) (simp add: db_call_def split: list.splits option.splits)

lemma find_append_Some: "find P xs = Some x \<Longrightarrow> find P (xs @ ys) = Some x"
  by (induction xs) (auto split: if_splits)

lemma find_append_None: "find P xs = None \<Longrightarrow> find P (xs @ ys) = find P ys"
  by (induction xs) (auto split: if_splits)

lemma find_None_slug: "find (\<lambda>x. f x = k) xs = None \<longleftrightarrow> k \<notin> set (map f xs)"
  by (auto simp: find_None_iff)

text \<open>What one call of each upsert can do to the store.\<close>

lemma upsertArtist_effect:
  assumes "upsertArtist a st = (r, st')"
  shows "venues st' = venues st \<and> festivals st' = festivals st \<and>
         festivalLineups st' = festivalLineups st \<and> scrapeLogs st' = scrapeLogs st \<and>
         (case find (\<lambda>x. a_slug x = slugify (art_name a)) (artists st) of
            Some row \<Rightarrow> artists st' = artists st \<and> (r = Inr (a_id row) \<or> (\<exists>e. r = Inl e))
          | None \<Rightarrow>
              (artists st' = artists st \<and> (\<exists>e. r = Inl e)) \<or>
              (\<exists>row. artists st' = artists st @ [row] \<and> a_slug row = slugify (art_name a) \<and>
                     r = Inr (a_id row)))"
  using assms
  by (auto simp: upsertArtist_def db_call_alt select_artist_def insert_artist_def Let_def
           split: list.splits option.splits prod.splits sum.splits if_splits)

lemma upsertFestival_effect:
  assumes "upsertFestival ev vid st = (r, st')"
  shows "venues st' = venues st \<and> artists st' = artists st \<and>
         festivalLineups st' = festivalLineups st \<and> scrapeLogs st' = scrapeLogs st \<and>
         (case find (\<lambda>x. f_slug x = festival_slug ev) (festivals st) of
            Some row \<Rightarrow> festivals st' = festivals st \<and> (r = Inr (f_id row) \<or> (\<exists>e. r = Inl e))
          | None \<Rightarrow>
              (festivals st' = festivals st \<and> (\<exists>e. r = Inl e)) \<or>
              (\<exists>row. festivals st' = festivals st @ [row] \<and> f_slug row = festival_slug ev \<and>
                     r = Inr (f_id row)))"
  using assms
  by (auto simp: upsertFestival_def db_call_alt select_festival_def insert_festival_def Let_def
           split: list.splits option.splits prod.splits sum.splits if_splits)

lemma upsertVenue_effect:
  assumes "upsertVenue ev st = (r, st')"
  shows "festivals st' = festivals st \<and> artists st' = artists st \<and>
         festivalLineups st' = festivalLineups st \<and> scrapeLogs st' = scrapeLogs st \<and>
         (case e_venue ev of
            None \<Rightarrow> venues st' = venues st \<and> r = Inr None
          | Some v \<Rightarrow>
              if rv_name v = [] then venues st' = venues st \<and> r = Inr None
              else
                (case find (\<lambda>x. v_name x = rv_name v) (venues st) of
                   Some row \<Rightarrow> venues st' = venues st \<and> (r = Inr (Some (v_id row)) \<or> (\<exists>e. r = Inl e))
                 | None \<Rightarrow>
                     (venues st' = venues st \<and> (\<exists>e. r = Inl e)) \<or>
                     (\<exists>row. venues st' = venues st @ [row] \<and> v_name row = rv_name v \<and>
                            r = Inr (Some (v_id row)))))"
  using assms
  by (auto simp: upsertVenue_def db_call_alt select_venue_def insert_venue_def Let_def
           split: list.splits option.splits prod.splits sum.splits if_splits)

lemma link_effect:
  assumes "db_call (insert_lineup_onConflictDoNothing row) st = (r, st')"
  shows "venues st' = venues st \<and> artists st' = artists st \<and> festivals st' = festivals st \<and>
         scrapeLogs st' = scrapeLogs st \<and>
         (if lineup_key row \<in> set (map lineup_key (festivalLineups st))
          then festivalLineups st' = festivalLineups st
          else (festivalLineups st' = festivalLineups st \<and> (\<exists>e. r = Inl e)) \<or>
               (\<exists>row'. festivalLineups st' = festivalLineups st @ [row'] \<and>
                       lineup_key row' = lineup_key row \<and> r = Inr ()))"
  using assms
  by (auto simp: db_call_alt insert_lineup_onConflictDoNothing_def lineup_key_def
           split: list.splits option.splits prod.splits sum.splits if_splits)

text \<open>The loops leave the run log alone.\<close>

lemma artist_step_frame:
  "venues (db (artist_step fid ev a s)) = venues (db s) \<and>
   festivals (db (artist_step fid ev a s)) = festivals (db s) \<and>
   scrapeLogs (db (artist_step fid ev a s)) = scrapeLogs (db s) \<and>
   festivalsFound (artist_step fid ev a s) = festivalsFound s"
proof (cases "upsertArtist a (db s)")
  case (Pair r st1)
  note up = upsertArtist_effect[OF Pair]
  show ?thesis
  proof (cases r)
    case (Inl e)
    with Pair up show ?thesis by (simp add: artist_step_def)
  next
    case (Inr aid)
    obtain r2 st2 where link: "db_call (insert_lineup_onConflictDoNothing
                     \<lparr>fl_id = 0, fl_festivalId = fid, fl_artistId = aid,
                      fl_performanceDate = date_part (e_date ev),
                      fl_startTime = time_part (e_startTime ev),
                      fl_endTime = time_part (e_endTime ev)\<rparr>) st1 = (r2, st2)"
      by (cases "db_call (insert_lineup_onConflictDoNothing
                     \<lparr>fl_id = 0, fl_festivalId = fid, fl_artistId = aid,
                      fl_performanceDate = date_part (e_date ev),
                      fl_startTime = time_part (e_startTime ev),
                      fl_endTime = time_part (e_endTime ev)\<rparr>) st1") auto
    from link_effect[OF link] up Pair Inr link show ?thesis
      by (cases r2) (simp_all add: artist_step_def)
  qed
qed

lemma artist_loop_frame:
  "venues (db (artist_loop fid ev as s)) = venues (db s) \<and>
   festivals (db (artist_loop fid ev as s)) = festivals (db s) \<and>
   scrapeLogs (db (artist_loop fid ev as s)) = scrapeLogs (db s) \<and>
   festivalsFound (artist_loop fid ev as s) = festivalsFound s"
  by (induction as arbitrary: s) (simp_all add: artist_step_frame)

lemma listing_step_scrapeLogs: "scrapeLogs (db (listing_step l s)) = scrapeLogs (db s)"
proof (cases "upsertVenue (l_event l) (db s)")
  case (Pair r st1)
  note v = upsertVenue_effect[OF Pair]
  show ?thesis
  proof (cases r)
    case (Inl e)
    with Pair v show ?thesis by (simp add: listing_step_def)
  next
    case (Inr vid)
    show ?thesis
    proof (cases "upsertFestival (l_event l) vid st1")
      case (Pair r2 st2)
      note f = upsertFestival_effect[OF Pair]
      from f v Pair Inr \<open>upsertVenue (l_event l) (db s) = (r, st1)\<close> show ?thesis
        by (cases r2) (simp_all add: listing_step_def Let_def artist_loop_frame)
    qed
  qed
qed

lemma listing_loop_scrapeLogs: "scrapeLogs (db (listing_loop ls s)) = scrapeLogs (db s)"
  by (induction ls arbitrary: s) (simp_all add: listing_step_scrapeLogs)

lemma log_effect:
  assumes "db_call (insert_scrapeLog row) st = (r, st')"
  shows "venues st' = venues st \<and> artists st' = artists st \<and> festivals st' = festivals st \<and>
         festivalLineups st' = festivalLineups st \<and>
         (case r of Inl e \<Rightarrow> scrapeLogs st' = scrapeLogs st
                  | Inr _ \<Rightarrow> scrapeLogs st' = scrapeLogs st @ [row])"
  using assms
  by (auto simp: db_call_alt insert_scrapeLog_def
           split: list.splits option.splits prod.splits sum.splits if_splits)

lemma syncArea_unfold:
  "syncArea service areaName areaId duration st =
     (case fetchRAEvents (service areaId) of
        None \<Rightarrow> None
      | Some got \<Rightarrow>
          (case db_call (insert_scrapeLog (log_of (before_log got areaName st) duration))
                  (db (before_log got areaName st)) of
             (Inl err, st') \<Rightarrow> Some (Inl err, st')
           | (Inr _, st') \<Rightarrow>
               Some (Inr \<lparr>sum_festivalsFound = festivalsFound (before_log got areaName st),
                          sum_artistsFound = artistsFound (before_log got areaName st),
                          sum_errors = errors (before_log got areaName st)\<rparr>, st')))"
proof (cases "fetchRAEvents (service areaId)")
  case None
  then show ?thesis by (simp add: syncArea_def)
next
  case (Some got)
  then show ?thesis
    by (cases "outcome got")
       (simp_all add: syncArea_def before_log_def log_of_def Let_def
                 split: prod.splits sum.splits)
qed

lemma before_log_scrapeLogs: "scrapeLogs (db (before_log got areaName st)) = scrapeLogs st"
  by (simp add: before_log_def listing_loop_scrapeLogs split: sum.splits)

lemma syncArea_log:
  assumes "syncArea service areaName areaId duration st = Some (res, st')"
  shows "case res of
           Inl err \<Rightarrow> scrapeLogs st' = scrapeLogs st
         | Inr result \<Rightarrow>
             (\<exists>row. scrapeLogs st' = scrapeLogs st @ [row] \<and>
                log_status row = (if sum_errors result = [] then js ''success'' else js ''partial'') \<and>
                log_errors row = take 20 (sum_errors result) \<and>
                length (log_errors row) \<le> 20)"
proof -
  from assms obtain got where got: "fetchRAEvents (service areaId) = Some got"
    by (auto simp: syncArea_unfold split: option.splits)
  let ?s = "before_log got areaName st"
  obtain r st2 where call: "db_call (insert_scrapeLog (log_of ?s duration)) (db ?s) = (r, st2)"
    by (cases "db_call (insert_scrapeLog (log_of ?s duration)) (db ?s)") auto
  note eff = log_effect[OF call]
  show ?thesis
  proof (cases r)
    case (Inl e)
    with assms got call eff show ?thesis
      by (auto simp: syncArea_unfold before_log_scrapeLogs)
  next
    case (Inr u)
    with assms got call eff show ?thesis
      by (auto simp: syncArea_unfold before_log_scrapeLogs log_of_def)
  qed
qed

text \<open>
  C5. \<^verbatim>\<open>syncArea\<close> writes a row to the run log only as its last step, when it returns
  normally. The status of the row is "success" when the run collected no error and
  "partial" when it collected one or more, and the errors of the row are the first
  twenty that were collected, in the order of collection, so never more than twenty.
  When the insert throws, no row is written.
\<close>

theorem run_log_classification:
  assumes "syncArea service areaName areaId duration st = Some (res, st')"
  shows "case res of
           Inl err \<Rightarrow> scrapeLogs st' = scrapeLogs st
         | Inr result \<Rightarrow>
             (\<exists>row. scrapeLogs st' = scrapeLogs st @ [row] \<and>
                log_status row = (if sum_errors result = [] then js ''success'' else js ''partial'') \<and>
                log_errors row = take 20 (sum_errors result) \<and>
                length (log_errors row) \<le> 20)"
  using assms by (rule syncArea_log)

section \<open>Lineup pairs, the run log of \<^verbatim>\<open>main\<close>, failing artists\<close>

lemma link_distinct:
  assumes "db_call (insert_lineup_onConflictDoNothing row) st = (r, st')"
    and "distinct (map lineup_key (festivalLineups st))"
  shows "distinct (map lineup_key (festivalLineups st'))"
  using link_effect[OF assms(1)] assms(2) by (auto split: if_splits)

lemma artist_step_distinct:
  assumes "distinct (map lineup_key (festivalLineups (db s)))"
  shows "distinct (map lineup_key (festivalLineups (db (artist_step fid ev a s))))"
proof (cases "upsertArtist a (db s)")
  case (Pair r st1)
  note up = upsertArtist_effect[OF Pair]
  show ?thesis
  proof (cases r)
    case (Inl e)
    with Pair up assms show ?thesis by (simp add: artist_step_def)
  next
    case (Inr aid)
    let ?row = "\<lparr>fl_id = 0, fl_festivalId = fid, fl_artistId = aid,
                      fl_performanceDate = date_part (e_date ev),
                      fl_startTime = time_part (e_startTime ev),
                      fl_endTime = time_part (e_endTime ev)\<rparr>"
    obtain r2 st2 where link: "db_call (insert_lineup_onConflictDoNothing ?row) st1 = (r2, st2)"
      by (cases "db_call (insert_lineup_onConflictDoNothing ?row) st1") auto
    from up assms have "distinct (map lineup_key (festivalLineups st1))" by simp
    from link_distinct[OF link this] Pair Inr link show ?thesis
      by (cases r2) (simp_all add: artist_step_def)
  qed
qed

lemma artist_loop_distinct:
  "distinct (map lineup_key (festivalLineups (db s))) \<Longrightarrow>
   distinct (map lineup_key (festivalLineups (db (artist_loop fid ev as s))))"
  by (induction as arbitrary: s) (simp_all add: artist_step_distinct)

lemma listing_step_distinct:
  assumes "distinct (map lineup_key (festivalLineups (db s)))"
  shows "distinct (map lineup_key (festivalLineups (db (listing_step l s))))"
proof (cases "upsertVenue (l_event l) (db s)")
  case (Pair r st1)
  note v = upsertVenue_effect[OF Pair]
  show ?thesis
  proof (cases r)
    case (Inl e)
    with Pair v assms show ?thesis by (simp add: listing_step_def)
  next
    case (Inr vid)
    show ?thesis
    proof (cases "upsertFestival (l_event l) vid st1")
      case (Pair r2 st2)
      note f = upsertFestival_effect[OF Pair]
      from f v assms have d: "distinct (map lineup_key (festivalLineups st2))" by simp
      from d Pair Inr \<open>upsertVenue (l_event l) (db s) = (r, st1)\<close> show ?thesis
        by (cases r2) (simp_all add: listing_step_def Let_def artist_loop_distinct)
    qed
  qed
qed

lemma listing_loop_distinct:
  "distinct (map lineup_key (festivalLineups (db s))) \<Longrightarrow>
   distinct (map lineup_key (festivalLineups (db (listing_loop ls s))))"
  by (induction ls arbitrary: s) (simp_all add: listing_step_distinct)

lemma before_log_distinct:
  "distinct (map lineup_key (festivalLineups st)) \<Longrightarrow>
   distinct (map lineup_key (festivalLineups (db (before_log got areaName st))))"
  by (simp add: before_log_def listing_loop_distinct split: sum.splits)

lemma syncArea_cases:
  assumes "syncArea service areaName areaId duration st = Some (res, st')"
  obtains got r where "fetchRAEvents (service areaId) = Some got"
    and "db_call (insert_scrapeLog (log_of (before_log got areaName st) duration))
           (db (before_log got areaName st)) = (r, st')"
    and "res = (case r of Inl err \<Rightarrow> Inl err
                | Inr _ \<Rightarrow> Inr \<lparr>sum_festivalsFound = festivalsFound (before_log got areaName st),
                          sum_artistsFound = artistsFound (before_log got areaName st),
                          sum_errors = errors (before_log got areaName st)\<rparr>)"
  using assms
  by (auto simp: syncArea_unfold split: option.splits prod.splits sum.splits)

text \<open>
  C3. Linking a pair of festival and artist that has a row already succeeds and leaves
  the store as it is: no error, no second row. The insert keeps the pairs of the lineup
  table distinct, and so does a whole \<^verbatim>\<open>syncArea\<close>, whatever the listings and whichever
  calls of the store fail.
\<close>

theorem lineup_pair_unique:
  "(lineup_key row \<in> set (map lineup_key (festivalLineups st)) \<longrightarrow>
      insert_lineup_onConflictDoNothing row st = (Inr (), st)) \<and>
   (distinct (map lineup_key (festivalLineups st)) \<longrightarrow>
      distinct (map lineup_key (festivalLineups (snd (insert_lineup_onConflictDoNothing row st))))) \<and>
   (distinct (map lineup_key (festivalLineups st)) \<and>
    syncArea service areaName areaId duration st = Some (res, st') \<longrightarrow>
      distinct (map lineup_key (festivalLineups st')))"
proof (intro conjI impI)
  assume "lineup_key row \<in> set (map lineup_key (festivalLineups st))"
  then show "insert_lineup_onConflictDoNothing row st = (Inr (), st)"
    by (simp add: insert_lineup_onConflictDoNothing_def)
next
  assume "distinct (map lineup_key (festivalLineups st))"
  then show "distinct (map lineup_key (festivalLineups (snd (insert_lineup_onConflictDoNothing row st))))"
    by (auto simp: insert_lineup_onConflictDoNothing_def lineup_key_def)
next
  assume a: "distinct (map lineup_key (festivalLineups st)) \<and>
    syncArea service areaName areaId duration st = Some (res, st')"
  then obtain got r where
    call: "db_call (insert_scrapeLog (log_of (before_log got areaName st) duration))
           (db (before_log got areaName st)) = (r, st')"
    by (auto elim: syncArea_cases)
  from log_effect[OF call] before_log_distinct[of st got areaName] a
  show "distinct (map lineup_key (festivalLineups st'))" by simp
qed


lemma artist_loop_append:
  "artist_loop fid ev (xs @ ys) s = artist_loop fid ev ys (artist_loop fid ev xs s)"
  by (induction xs arbitrary: s) simp_all

lemma artist_step_errors: "\<exists>es. errors (artist_step fid ev a s) = errors s @ es"
  by (auto simp: artist_step_def split: prod.splits sum.splits)

lemma artist_loop_errors: "\<exists>es. errors (artist_loop fid ev as s) = errors s @ es"
proof (induction as arbitrary: s)
  case Nil
  then show ?case by simp
next
  case (Cons a as)
  from Cons[of "artist_step fid ev a s"] artist_step_errors[of fid ev a s]
  show ?case by auto
qed

text \<open>
  C6. In a listing whose venue and festival upserts returned, let the upsert of the
  artist \<open>ak\<close> throw \<open>err\<close> after the artists \<open>pre\<close> have been processed. Then the loop
  goes on with the artists \<open>post\<close> that follow, from the state in which the message
  "Artist", the name of \<open>ak\<close>, ":" and the message of \<open>err\<close> has been appended to the
  errors; that message is among the errors at the end; and the venue rows and the
  festival rows, among them the row of the listing's festival, are at the end what they
  were before the loop.
\<close>

theorem artist_failure_isolated:
  assumes venue: "upsertVenue (l_event l) (db s) = (Inr venueId, st1)"
    and festival: "upsertFestival (l_event l) venueId st1 = (Inr festivalId, st2)"
    and artists: "e_artists (l_event l) = Some (pre @ ak # post)"
    and before: "artist_loop festivalId (l_event l) pre
                   (s\<lparr>db := st2, festivalsFound := festivalsFound s + 1\<rparr>) = sk"
    and throws: "upsertArtist ak (db sk) = (Inl err, st3)"
  shows "listing_step l s =
           artist_loop festivalId (l_event l) post
             (sk\<lparr>db := st3,
                 errors := errors sk @ [js ''Artist '' @ art_name ak @ js '': '' @ message err]\<rparr>) \<and>
         js ''Artist '' @ art_name ak @ js '': '' @ message err \<in> set (errors (listing_step l s)) \<and>
         venues (db (listing_step l s)) = venues st2 \<and>
         festivals (db (listing_step l s)) = festivals st2 \<and>
         (\<exists>row. find (\<lambda>f. f_slug f = festival_slug (l_event l)) (festivals (db (listing_step l s)))
                  = Some row \<and> f_id row = festivalId)"
proof -
  let ?s2 = "s\<lparr>db := st2, festivalsFound := festivalsFound s + 1\<rparr>"
  let ?sk' = "sk\<lparr>db := st3,
                 errors := errors sk @ [js ''Artist '' @ art_name ak @ js '': '' @ message err]\<rparr>"
  have step: "artist_step festivalId (l_event l) ak sk = ?sk'"
    using throws by (simp add: artist_step_def artist_error_def)
  have eq: "listing_step l s = artist_loop festivalId (l_event l) post ?sk'"
    using venue festival artists before step
    by (simp add: listing_step_def Let_def artist_loop_append)
  have all: "listing_step l s = artist_loop festivalId (l_event l) (pre @ ak # post) ?s2"
    using venue festival artists by (simp add: listing_step_def Let_def)
  from artist_loop_errors[of festivalId "l_event l" post ?sk'] eq
  have err: "js ''Artist '' @ art_name ak @ js '': '' @ message err \<in> set (errors (listing_step l s))"
    by auto
  from artist_loop_frame[of festivalId "l_event l" "pre @ ak # post" ?s2] all
  have frame: "venues (db (listing_step l s)) = venues st2"
    "festivals (db (listing_step l s)) = festivals st2" by simp_all
  from upsertFestival_effect[OF festival]
  have "\<exists>row. find (\<lambda>f. f_slug f = festival_slug (l_event l)) (festivals st2) = Some row \<and>
           f_id row = festivalId"
    by (auto split: option.splits simp: find_append_None)
  with eq err frame show ?thesis by simp
qed

section \<open>Reconciled listings\<close>

lemma grows_refl: "grows st st"
  by (simp add: grows_def)

lemma grows_trans: "grows a b \<Longrightarrow> grows b c \<Longrightarrow> grows a c"
  by (auto simp: grows_def)

lemma same_rows_refl: "same_rows st st"
  by (simp add: same_rows_def)

lemma same_rows_trans: "same_rows a b \<Longrightarrow> same_rows b c \<Longrightarrow> same_rows a c"
  by (simp add: same_rows_def)

lemma linked_mono: "linked st fid a \<Longrightarrow> grows st st' \<Longrightarrow> linked st' fid a"
  by (auto simp: linked_def grows_def find_append_Some split: option.splits)

lemma linked_same: "same_rows st st' \<Longrightarrow> linked st' fid = linked st fid"
  by (rule ext) (simp add: linked_def same_rows_def split: option.splits)

lemma reconciled_same:
  assumes "same_rows st st'"
  shows "reconciled st' l = reconciled st l"
  using assms linked_same[OF assms]
  by (simp add: reconciled_def same_rows_def split: option.splits)

lemma list_all_linked_mono:
  "list_all (linked st fid) as \<Longrightarrow> grows st st' \<Longrightarrow> list_all (linked st' fid) as"
  by (auto simp: list_all_iff intro: linked_mono)

lemma reconciled_mono:
  assumes "reconciled st l" "grows st st'"
  shows "reconciled st' l"
proof -
  from assms(1) obtain row where
    f: "find (\<lambda>x. f_slug x = festival_slug (l_event l)) (festivals st) = Some row"
    and a: "list_all (linked st (f_id row)) (artists_of (l_event l))"
    by (auto simp: reconciled_def split: option.splits)
  from f assms(2) have f': "find (\<lambda>x. f_slug x = festival_slug (l_event l)) (festivals st') = Some row"
    by (auto simp: grows_def find_append_Some)
  from a assms(2) have a': "list_all (linked st' (f_id row)) (artists_of (l_event l))"
    by (rule list_all_linked_mono)
  have v: "case e_venue (l_event l) of None \<Rightarrow> True
       | Some v \<Rightarrow> rv_name v = [] \<or> find (\<lambda>x. v_name x = rv_name v) (venues st') \<noteq> None"
    using assms by (auto simp: reconciled_def grows_def find_append_Some split: option.splits)
  from f' a' v show ?thesis by (simp add: reconciled_def)
qed

text \<open>Each step only appends rows.\<close>

lemma upsertArtist_grows: "upsertArtist a st = (r, st') \<Longrightarrow> grows st st'"
  by (drule upsertArtist_effect) (auto simp: grows_def split: option.splits)

lemma upsertFestival_grows: "upsertFestival ev vid st = (r, st') \<Longrightarrow> grows st st'"
  by (drule upsertFestival_effect) (auto simp: grows_def split: option.splits)

lemma upsertVenue_grows: "upsertVenue ev st = (r, st') \<Longrightarrow> grows st st'"
  by (drule upsertVenue_effect) (auto simp: grows_def split: option.splits if_splits)

lemma link_grows: "db_call (insert_lineup_onConflictDoNothing row) st = (r, st') \<Longrightarrow> grows st st'"
  by (drule link_effect) (auto simp: grows_def split: if_splits)

lemma artist_step_cases:
  obtains (throws) err st1 where "upsertArtist a (db s) = (Inl err, st1)"
      "artist_step fid ev a s = s\<lparr>db := st1, errors := errors s @ [artist_error a err]\<rparr>"
  | (link_throws) aid st1 err st2 where "upsertArtist a (db s) = (Inr aid, st1)"
      "db_call (insert_lineup_onConflictDoNothing
                     \<lparr>fl_id = 0, fl_festivalId = fid, fl_artistId = aid,
                      fl_performanceDate = date_part (e_date ev),
                      fl_startTime = time_part (e_startTime ev),
                      fl_endTime = time_part (e_endTime ev)\<rparr>) st1 = (Inl err, st2)"
      "artist_step fid ev a s = s\<lparr>db := st2, artistsFound := artistsFound s + 1,
                 errors := errors s @ [artist_error a err]\<rparr>"
  | (linked) aid st1 st2 where "upsertArtist a (db s) = (Inr aid, st1)"
      "db_call (insert_lineup_onConflictDoNothing
                     \<lparr>fl_id = 0, fl_festivalId = fid, fl_artistId = aid,
                      fl_performanceDate = date_part (e_date ev),
                      fl_startTime = time_part (e_startTime ev),
                      fl_endTime = time_part (e_endTime ev)\<rparr>) st1 = (Inr (), st2)"
      "artist_step fid ev a s = s\<lparr>db := st2, artistsFound := artistsFound s + 1\<rparr>"
proof (cases "upsertArtist a (db s)")
  case (Pair r st1)
  show ?thesis
  proof (cases r)
    case (Inl err)
    with Pair show ?thesis by (intro throws[of err st1]) (simp_all add: artist_step_def)
  next
    case (Inr aid)
    let ?row = "\<lparr>fl_id = 0, fl_festivalId = fid, fl_artistId = aid,
                      fl_performanceDate = date_part (e_date ev),
                      fl_startTime = time_part (e_startTime ev),
                      fl_endTime = time_part (e_endTime ev)\<rparr>"
    obtain r2 st2 where l: "db_call (insert_lineup_onConflictDoNothing ?row) st1 = (r2, st2)"
      by (cases "db_call (insert_lineup_onConflictDoNothing ?row) st1") auto
    show ?thesis
    proof (cases r2)
      case (Inl err)
      with Pair Inr l show ?thesis
        by (intro link_throws[of aid st1 err st2]) (simp_all add: artist_step_def)
    next
      case (Inr u)
      with Pair \<open>r = Inr aid\<close> l show ?thesis
        by (intro linked[of aid st1 st2]) (simp_all add: artist_step_def)
    qed
  qed
qed

lemma listing_step_cases:
  obtains (venue_throws) err st1 where "upsertVenue (l_event l) (db s) = (Inl err, st1)"
      "listing_step l s = s\<lparr>db := st1, errors := errors s @ [event_error l err]\<rparr>"
  | (festival_throws) vid st1 err st2 where "upsertVenue (l_event l) (db s) = (Inr vid, st1)"
      "upsertFestival (l_event l) vid st1 = (Inl err, st2)"
      "listing_step l s = s\<lparr>db := st2, errors := errors s @ [event_error l err]\<rparr>"
  | (artists) vid st1 fid st2 where "upsertVenue (l_event l) (db s) = (Inr vid, st1)"
      "upsertFestival (l_event l) vid st1 = (Inr fid, st2)"
      "listing_step l s = artist_loop fid (l_event l) (artists_of (l_event l))
                 (s\<lparr>db := st2, festivalsFound := festivalsFound s + 1\<rparr>)"
proof (cases "upsertVenue (l_event l) (db s)")
  case (Pair r st1)
  show ?thesis
  proof (cases r)
    case (Inl err)
    with Pair show ?thesis by (intro venue_throws[of err st1]) (simp_all add: listing_step_def)
  next
    case (Inr vid)
    obtain r2 st2 where f: "upsertFestival (l_event l) vid st1 = (r2, st2)"
      by (cases "upsertFestival (l_event l) vid st1") auto
    show ?thesis
    proof (cases r2)
      case (Inl err)
      with Pair Inr f show ?thesis
        by (intro festival_throws[of vid st1 err st2]) (simp_all add: listing_step_def)
    next
      case (Inr fid)
      with Pair \<open>r = Inr vid\<close> f show ?thesis
        by (intro artists[of vid st1 fid st2])
           (simp_all add: listing_step_def Let_def artists_of_def)
    qed
  qed
qed

lemma artist_step_grows: "grows (db s) (db (artist_step fid ev a s))"
proof (cases rule: artist_step_cases[of a s fid ev])
  case (throws err st1)
  then show ?thesis by (simp add: upsertArtist_grows)
next
  case (link_throws aid st1 err st2)
  from upsertArtist_grows[OF link_throws(1)] link_grows[OF link_throws(2)] link_throws(3)
  show ?thesis by (auto intro: grows_trans)
next
  case (linked aid st1 st2)
  from upsertArtist_grows[OF linked(1)] link_grows[OF linked(2)] linked(3)
  show ?thesis by (auto intro: grows_trans)
qed

lemma artist_loop_grows: "grows (db s) (db (artist_loop fid ev as s))"
proof (induction as arbitrary: s)
  case Nil
  show ?case by (simp add: grows_refl)
next
  case (Cons a as)
  from artist_step_grows[of s fid ev a] Cons[of "artist_step fid ev a s"]
  show ?case by (auto intro: grows_trans)
qed

lemma listing_step_grows: "grows (db s) (db (listing_step l s))"
proof (cases rule: listing_step_cases[of l s])
  case (venue_throws err st1)
  then show ?thesis by (simp add: upsertVenue_grows)
next
  case (festival_throws vid st1 err st2)
  from upsertVenue_grows[OF festival_throws(1)] upsertFestival_grows[OF festival_throws(2)]
    festival_throws(3)
  show ?thesis by (auto intro: grows_trans)
next
  case (artists vid st1 fid st2)
  from upsertVenue_grows[OF artists(1)] upsertFestival_grows[OF artists(2)]
  have "grows (db s) st2" by (rule grows_trans)
  moreover have "grows st2 (db (listing_step l s))"
    using artist_loop_grows[of "s\<lparr>db := st2, festivalsFound := festivalsFound s + 1\<rparr>"
        fid "l_event l" "artists_of (l_event l)"] artists(3) by simp
  ultimately show ?thesis by (rule grows_trans)
qed

lemma listing_loop_grows: "grows (db s) (db (listing_loop ls s))"
proof (induction ls arbitrary: s)
  case Nil
  show ?case by (simp add: grows_refl)
next
  case (Cons l ls)
  from listing_step_grows[of s l] Cons[of "listing_step l s"]
  show ?case by (auto intro: grows_trans)
qed

lemma listing_step_errors: "\<exists>es. errors (listing_step l s) = errors s @ es"
proof (cases rule: listing_step_cases[of l s])
  case (artists vid st1 fid st2)
  with artist_loop_errors[of fid "l_event l" "artists_of (l_event l)"
      "s\<lparr>db := st2, festivalsFound := festivalsFound s + 1\<rparr>"]
  show ?thesis by simp
qed auto

lemma listing_loop_errors: "\<exists>es. errors (listing_loop ls s) = errors s @ es"
proof (induction ls arbitrary: s)
  case Nil
  then show ?case by simp
next
  case (Cons l ls)
  from Cons[of "listing_step l s"] listing_step_errors[of l s]
  show ?case by auto
qed

text \<open>A step that records no error leaves its artist, or its listing, reconciled.\<close>

lemma upsertArtist_found:
  assumes "upsertArtist a st = (Inr aid, st')"
  shows "\<exists>row. find (\<lambda>x. a_slug x = slugify (art_name a)) (artists st') = Some row \<and>
           a_id row = aid"
  using upsertArtist_effect[OF assms]
  by (auto split: option.splits simp: find_append_None)

lemma upsertFestival_found:
  assumes "upsertFestival ev vid st = (Inr fid, st')"
  shows "\<exists>row. find (\<lambda>x. f_slug x = festival_slug ev) (festivals st') = Some row \<and>
           f_id row = fid"
  using upsertFestival_effect[OF assms]
  by (auto split: option.splits simp: find_append_None)

lemma upsertVenue_found:
  assumes "upsertVenue ev st = (Inr vid, st')"
  shows "case e_venue ev of None \<Rightarrow> True
         | Some v \<Rightarrow> rv_name v = [] \<or> find (\<lambda>x. v_name x = rv_name v) (venues st') \<noteq> None"
  using upsertVenue_effect[OF assms]
  by (auto split: option.splits if_splits simp: find_append_None)

lemma artist_step_no_error:
  assumes "errors (artist_step fid ev a s) = []"
  shows "linked (db (artist_step fid ev a s)) fid a"
proof (cases rule: artist_step_cases[of a s fid ev])
  case (throws err st1)
  with assms show ?thesis by simp
next
  case (link_throws aid st1 err st2)
  with assms show ?thesis by simp
next
  case (linked aid st1 st2)
  from upsertArtist_found[OF linked(1)] obtain row where
    row: "find (\<lambda>x. a_slug x = slugify (art_name a)) (artists st1) = Some row" "a_id row = aid"
    by auto
  from link_effect[OF linked(2)] row
  have "find (\<lambda>x. a_slug x = slugify (art_name a)) (artists st2) = Some row"
    and "(fid, aid) \<in> set (map lineup_key (festivalLineups st2))"
    by (auto simp: lineup_key_def split: if_splits)
  with row linked(3) show ?thesis by (simp add: linked_def)
qed

lemma artist_loop_no_error:
  assumes "errors (artist_loop fid ev as s) = []"
  shows "list_all (linked (db (artist_loop fid ev as s)) fid) as"
  using assms
proof (induction as arbitrary: s)
  case Nil
  show ?case by simp
next
  case (Cons a as)
  let ?s1 = "artist_step fid ev a s"
  from Cons.prems have e: "errors (artist_loop fid ev as ?s1) = []" by simp
  with artist_loop_errors[of fid ev as ?s1] have "errors ?s1 = []" by auto
  then have "linked (db ?s1) fid a" by (rule artist_step_no_error)
  then have "linked (db (artist_loop fid ev as ?s1)) fid a"
    using artist_loop_grows[of ?s1 fid ev as] by (rule linked_mono)
  with Cons.IH[OF e] show ?case by simp
qed

lemma listing_step_no_error:
  assumes "errors (listing_step l s) = []"
  shows "reconciled (db (listing_step l s)) l"
proof (cases rule: listing_step_cases[of l s])
  case (venue_throws err st1)
  with assms show ?thesis by simp
next
  case (festival_throws vid st1 err st2)
  with assms show ?thesis by simp
next
  case (artists vid st1 fid st2)
  let ?s2 = "s\<lparr>db := st2, festivalsFound := festivalsFound s + 1\<rparr>"
  let ?as = "artists_of (l_event l)"
  have fin: "listing_step l s = artist_loop fid (l_event l) ?as ?s2" by (rule artists(3))
  from upsertFestival_found[OF artists(2)] obtain row where
    row: "find (\<lambda>x. f_slug x = festival_slug (l_event l)) (festivals st2) = Some row"
      "f_id row = fid" by auto
  from upsertVenue_found[OF artists(1)] upsertFestival_effect[OF artists(2)]
  have v: "case e_venue (l_event l) of None \<Rightarrow> True
         | Some v \<Rightarrow> rv_name v = [] \<or> find (\<lambda>x. v_name x = rv_name v) (venues st2) \<noteq> None"
    by (auto split: option.splits)
  from artist_loop_frame[of fid "l_event l" ?as ?s2]
  have frame: "venues (db (listing_step l s)) = venues st2"
    "festivals (db (listing_step l s)) = festivals st2"
    by (simp_all add: fin)
  from assms have "list_all (linked (db (listing_step l s)) fid) ?as"
    unfolding fin by (rule artist_loop_no_error)
  with row v frame show ?thesis by (simp add: reconciled_def split: option.splits)
qed

lemma listing_loop_no_error:
  assumes "errors (listing_loop ls s) = []"
  shows "list_all (reconciled (db (listing_loop ls s))) ls"
  using assms
proof (induction ls arbitrary: s)
  case Nil
  show ?case by simp
next
  case (Cons l ls)
  let ?s1 = "listing_step l s"
  from Cons.prems have e: "errors (listing_loop ls ?s1) = []" by simp
  with listing_loop_errors[of ls ?s1] have "errors ?s1 = []" by auto
  then have "reconciled (db ?s1) l" by (rule listing_step_no_error)
  then have "reconciled (db (listing_loop ls ?s1)) l"
    using listing_loop_grows[of ?s1 ls] by (rule reconciled_mono)
  with Cons.IH[OF e] show ?case by simp
qed

text \<open>A step on a reconciled artist, or listing, inserts nothing.\<close>

lemma artist_step_noop:
  assumes "linked (db s) fid a"
  shows "same_rows (db s) (db (artist_step fid ev a s))"
proof -
  from assms obtain row where
    row: "find (\<lambda>x. a_slug x = slugify (art_name a)) (artists (db s)) = Some row"
    and key: "(fid, a_id row) \<in> set (map lineup_key (festivalLineups (db s)))"
    by (auto simp: linked_def split: option.splits)
  show ?thesis
  proof (cases rule: artist_step_cases[of a s fid ev])
    case (throws err st1)
    from upsertArtist_effect[OF throws(1)] row throws(2) show ?thesis
      by (simp add: same_rows_def)
  next
    case (link_throws aid st1 err st2)
    from upsertArtist_effect[OF link_throws(1)] row
    have 1: "same_rows (db s) st1" "aid = a_id row" by (simp_all add: same_rows_def)
    with key link_effect[OF link_throws(2)] link_throws(3) show ?thesis
      by (simp add: same_rows_def lineup_key_def)
  next
    case (linked aid st1 st2)
    from upsertArtist_effect[OF linked(1)] row
    have 1: "same_rows (db s) st1" "aid = a_id row" by (simp_all add: same_rows_def)
    with key link_effect[OF linked(2)] linked(3) show ?thesis
      by (simp add: same_rows_def lineup_key_def)
  qed
qed

lemma artist_loop_noop:
  assumes "list_all (linked (db s) fid) as"
  shows "same_rows (db s) (db (artist_loop fid ev as s))"
  using assms
proof (induction as arbitrary: s)
  case Nil
  show ?case by (simp add: same_rows_refl)
next
  case (Cons a as)
  let ?s1 = "artist_step fid ev a s"
  from Cons.prems have 1: "same_rows (db s) (db ?s1)" by (simp add: artist_step_noop)
  with Cons.prems have "list_all (linked (db ?s1) fid) as"
    by (simp add: linked_same[OF 1])
  from Cons.IH[OF this] 1 show ?case by (auto intro: same_rows_trans)
qed

lemma listing_step_noop:
  assumes "reconciled (db s) l"
  shows "same_rows (db s) (db (listing_step l s))"
proof -
  from assms obtain row where
    row: "find (\<lambda>x. f_slug x = festival_slug (l_event l)) (festivals (db s)) = Some row"
    and as: "list_all (linked (db s) (f_id row)) (artists_of (l_event l))"
    and v: "case e_venue (l_event l) of None \<Rightarrow> True
         | Some v \<Rightarrow> rv_name v = [] \<or> find (\<lambda>x. v_name x = rv_name v) (venues (db s)) \<noteq> None"
    by (auto simp: reconciled_def split: option.splits)
  have venue: "same_rows (db s) st1" if "upsertVenue (l_event l) (db s) = (r, st1)" for r st1
    using upsertVenue_effect[OF that] v
    by (auto simp: same_rows_def split: option.splits if_splits)
  have festival: "same_rows st1 st2 \<and> (\<forall>fid. r = Inr fid \<longrightarrow> fid = f_id row)"
    if "upsertFestival (l_event l) vid st1 = (r, st2)" "same_rows (db s) st1" for r vid st1 st2
    using upsertFestival_effect[OF that(1)] that(2) row
    by (auto simp: same_rows_def split: option.splits)
  show ?thesis
  proof (cases rule: listing_step_cases[of l s])
    case (venue_throws err st1)
    from venue[OF venue_throws(1)] venue_throws(2) show ?thesis by simp
  next
    case (festival_throws vid st1 err st2)
    from venue[OF festival_throws(1)] festival[OF festival_throws(2)] festival_throws(3)
    show ?thesis by (auto intro: same_rows_trans)
  next
    case (artists vid st1 fid st2)
    let ?s2 = "s\<lparr>db := st2, festivalsFound := festivalsFound s + 1\<rparr>"
    from venue[OF artists(1)] festival[OF artists(2)]
    have 2: "same_rows (db s) st2" and fid: "fid = f_id row"
      by (auto intro: same_rows_trans)
    from as fid have "list_all (linked (db ?s2) fid) (artists_of (l_event l))"
      by (simp add: linked_same[OF 2])
    from artist_loop_noop[OF this, of "l_event l"] 2 artists(3) show ?thesis
      by (auto intro: same_rows_trans)
  qed
qed

lemma listing_loop_noop:
  assumes "list_all (reconciled (db s)) ls"
  shows "same_rows (db s) (db (listing_loop ls s))"
  using assms
proof (induction ls arbitrary: s)
  case Nil
  show ?case by (simp add: same_rows_refl)
next
  case (Cons l ls)
  let ?s1 = "listing_step l s"
  from Cons.prems have 1: "same_rows (db s) (db ?s1)" by (simp add: listing_step_noop)
  with Cons.prems have "list_all (reconciled (db ?s1)) ls"
    by (simp add: list_all_iff reconciled_same[OF 1])
  from Cons.IH[OF this] 1 show ?case by (auto intro: same_rows_trans)
qed

section \<open>Running the sync twice\<close>

lemma before_log_listings:
  "outcome got = Inr listings \<Longrightarrow> before_log got areaName st = listing_loop listings (fresh st)"
  by (simp add: before_log_def fresh_def)

lemma before_log_thrown:
  "outcome got = Inl err \<Longrightarrow> errors (before_log got areaName st) = [area_error areaName err]"
  by (simp add: before_log_def)

lemma log_same_rows:
  "db_call (insert_scrapeLog row) st = (r, st') \<Longrightarrow> same_rows st st'"
  by (drule log_effect) (simp add: same_rows_def)

lemma second_run_same_rows:
  assumes got: "fetchRAEvents (service areaId) = Some got"
    and rec: "\<And>listings. outcome got = Inr listings \<Longrightarrow> list_all (reconciled st) listings"
  shows "\<exists>res st'. syncArea service areaName areaId duration st = Some (res, st') \<and>
           same_rows st st'"
proof -
  let ?s = "before_log got areaName st"
  have rows: "same_rows st (db ?s)"
  proof (cases "outcome got")
    case (Inl err)
    then show ?thesis by (simp add: before_log_def same_rows_refl)
  next
    case (Inr ls)
    from rec[OF Inr] have "list_all (reconciled (db (fresh st))) ls"
      by (simp add: fresh_def)
    from listing_loop_noop[OF this] Inr show ?thesis
      by (simp add: before_log_listings fresh_def)
  qed
  obtain r st' where call: "db_call (insert_scrapeLog (log_of ?s duration)) (db ?s) = (r, st')"
    by (cases "db_call (insert_scrapeLog (log_of ?s duration)) (db ?s)") auto
  from rows log_same_rows[OF call] have "same_rows st st'" by (rule same_rows_trans)
  with got call show ?thesis
    by (cases r) (simp_all add: syncArea_unfold)
qed

lemma clean_run_then_same_rows:
  assumes first: "syncArea service areaName areaId d1 st0 = Some (Inr r1, st1)"
    and clean: "sum_errors r1 = []"
  shows "\<exists>res2 st2. syncArea service areaName areaId d2 (st1\<lparr>faults := fs\<rparr>) = Some (res2, st2) \<and>
           venues st2 = venues st1 \<and> artists st2 = artists st1 \<and>
           festivals st2 = festivals st1 \<and> festivalLineups st2 = festivalLineups st1"
proof -
  from first obtain got r where got: "fetchRAEvents (service areaId) = Some got"
    and call: "db_call (insert_scrapeLog (log_of (before_log got areaName st0) d1))
           (db (before_log got areaName st0)) = (r, st1)"
    and res: "Inr r1 = (case r of Inl err \<Rightarrow> Inl err
                | Inr _ \<Rightarrow> Inr \<lparr>sum_festivalsFound = festivalsFound (before_log got areaName st0),
                          sum_artistsFound = artistsFound (before_log got areaName st0),
                          sum_errors = errors (before_log got areaName st0)\<rparr>)"
    by (auto elim: syncArea_cases)
  from res clean have e: "errors (before_log got areaName st0) = []"
    by (cases r) auto
  have rec: "list_all (reconciled (st1\<lparr>faults := fs\<rparr>)) listings"
    if out: "outcome got = Inr listings" for listings
  proof -
    from e out have "list_all (reconciled (db (before_log got areaName st0))) listings"
      by (simp add: before_log_listings listing_loop_no_error)
    moreover have "same_rows (db (before_log got areaName st0)) (st1\<lparr>faults := fs\<rparr>)"
      using log_same_rows[OF call] by (simp add: same_rows_def)
    ultimately show ?thesis by (simp add: list_all_iff reconciled_same)
  qed
  from second_run_same_rows[of service areaId got "st1\<lparr>faults := fs\<rparr>" areaName d2] got rec
  show ?thesis by (auto simp: same_rows_def)
qed

text \<open>
  C1. Let a run of \<^verbatim>\<open>syncArea\<close> return having collected no error. Then a second run for
  the same area against the same service, from the store the first one left and whatever
  the store does to the calls of the second, returns, and the venue, artist, festival
  and lineup tables are after it what they were before it.
\<close>

theorem second_sync_inserts_nothing:
  assumes "syncArea service areaName areaId d1 st0 = Some (Inr r1, st1)"
    and "sum_errors r1 = []"
  shows "\<exists>res2 st2. syncArea service areaName areaId d2 (st1\<lparr>faults := fs\<rparr>) = Some (res2, st2) \<and>
           venues st2 = venues st1 \<and> artists st2 = artists st1 \<and>
           festivals st2 = festivals st1 \<and> festivalLineups st2 = festivalLineups st1"
  using assms by (rule clean_run_then_same_rows)

text \<open>When no call of the store fails, every upsert completes.\<close>

lemma upsertVenue_ok:
  assumes "faults st = []"
  shows "\<exists>vid st'. upsertVenue ev st = (Inr vid, st') \<and> faults st' = []"
  using assms
  by (auto simp: upsertVenue_def db_call_def select_venue_def insert_venue_def
           split: option.splits)

lemma upsertFestival_ok:
  assumes "faults st = []"
  shows "\<exists>fid st'. upsertFestival ev vid st = (Inr fid, st') \<and> faults st' = []"
  using assms
  by (auto simp: upsertFestival_def db_call_def select_festival_def insert_festival_def Let_def
                 find_None_iff
           split: option.splits)

lemma upsertArtist_ok:
  assumes "faults st = []"
  shows "\<exists>aid st'. upsertArtist a st = (Inr aid, st') \<and> faults st' = []"
  using assms
  by (auto simp: upsertArtist_def db_call_def select_artist_def insert_artist_def Let_def
                 find_None_iff
           split: option.splits)

lemma link_ok:
  assumes "faults st = []"
  shows "\<exists>st'. db_call (insert_lineup_onConflictDoNothing row) st = (Inr (), st') \<and> faults st' = []"
  using assms
  by (auto simp: db_call_def insert_lineup_onConflictDoNothing_def)

lemma log_ok:
  assumes "faults st = []"
  shows "db_call (insert_scrapeLog row) st = (Inr (), st\<lparr>scrapeLogs := scrapeLogs st @ [row]\<rparr>)"
  using assms by (simp add: db_call_def insert_scrapeLog_def)

lemma artist_step_ok:
  assumes "faults (db s) = []"
  shows "faults (db (artist_step fid ev a s)) = [] \<and>
         artistsFound (artist_step fid ev a s) = artistsFound s + 1 \<and>
         errors (artist_step fid ev a s) = errors s"
proof -
  from upsertArtist_ok[OF assms, of a] obtain aid st1 where
    1: "upsertArtist a (db s) = (Inr aid, st1)" "faults st1 = []" by auto
  let ?row = "\<lparr>fl_id = 0, fl_festivalId = fid, fl_artistId = aid,
                      fl_performanceDate = date_part (e_date ev),
                      fl_startTime = time_part (e_startTime ev),
                      fl_endTime = time_part (e_endTime ev)\<rparr>"
  from link_ok[OF 1(2), of ?row] obtain st2 where
    2: "db_call (insert_lineup_onConflictDoNothing ?row) st1 = (Inr (), st2)" "faults st2 = []"
    by auto
  from 1(1) 2 show ?thesis
    by (simp add: artist_step_def)
qed

lemma artist_loop_ok:
  assumes "faults (db s) = []"
  shows "faults (db (artist_loop fid ev as s)) = [] \<and>
         artistsFound (artist_loop fid ev as s) = artistsFound s + length as \<and>
         errors (artist_loop fid ev as s) = errors s"
  using assms
proof (induction as arbitrary: s)
  case Nil
  then show ?case by simp
next
  case (Cons a as)
  from artist_step_ok[OF Cons.prems, of fid ev a] Cons.IH[of "artist_step fid ev a s"]
  show ?case by simp
qed

lemma listing_step_ok:
  assumes "faults (db s) = []"
  shows "faults (db (listing_step l s)) = [] \<and>
         festivalsFound (listing_step l s) = festivalsFound s + 1 \<and>
         artistsFound (listing_step l s) = artistsFound s + length (artists_of (l_event l)) \<and>
         errors (listing_step l s) = errors s"
proof -
  from upsertVenue_ok[OF assms, of "l_event l"] obtain vid st1 where
    1: "upsertVenue (l_event l) (db s) = (Inr vid, st1)" "faults st1 = []" by auto
  from upsertFestival_ok[OF 1(2), of "l_event l" vid] obtain fid st2 where
    2: "upsertFestival (l_event l) vid st1 = (Inr fid, st2)" "faults st2 = []" by auto
  let ?s2 = "s\<lparr>db := st2, festivalsFound := festivalsFound s + 1\<rparr>"
  have "listing_step l s = artist_loop fid (l_event l) (artists_of (l_event l)) ?s2"
    using 1 2 by (simp add: listing_step_def Let_def artists_of_def)
  with artist_loop_ok[of ?s2 fid "l_event l" "artists_of (l_event l)"] 2(2)
    artist_loop_frame[of fid "l_event l" "artists_of (l_event l)" ?s2]
  show ?thesis by simp
qed

lemma listing_loop_ok:
  assumes "faults (db s) = []"
  shows "faults (db (listing_loop ls s)) = [] \<and>
         festivalsFound (listing_loop ls s) = festivalsFound s + length ls \<and>
         artistsFound (listing_loop ls s) = artistsFound s + artist_slots ls \<and>
         errors (listing_loop ls s) = errors s"
  using assms
proof (induction ls arbitrary: s)
  case Nil
  then show ?case by (simp add: artist_slots_def)
next
  case (Cons l ls)
  from listing_step_ok[OF Cons.prems, of l] Cons.IH[of "listing_step l s"]
  show ?case by (simp add: artist_slots_def)
qed

lemma syncArea_ok:
  assumes got: "fetchRAEvents (service areaId) = Some got"
    and out: "outcome got = Inr listings"
    and nofault: "faults st = []"
  shows "\<exists>st'. syncArea service areaName areaId duration st =
             Some (Inr \<lparr>sum_festivalsFound = length listings,
                        sum_artistsFound = artist_slots listings, sum_errors = []\<rparr>, st') \<and>
           faults st' = [] \<and>
           scrapeLogs st' = scrapeLogs st @
             [\<lparr>log_status = js ''success'', log_festivalsFound = length listings,
               log_artistsFound = artist_slots listings, log_errors = [],
               log_duration = duration\<rparr>]"
proof -
  let ?s = "before_log got areaName st"
  from listing_loop_ok[of "fresh st" listings] nofault out
  have s: "faults (db ?s) = []" "festivalsFound ?s = length listings"
    "artistsFound ?s = artist_slots listings" "errors ?s = []"
    by (simp_all add: before_log_listings fresh_def)
  from log_ok[OF s(1)] got s before_log_scrapeLogs[of got areaName st]
  show ?thesis by (simp add: syncArea_unfold log_of_def)
qed

lemma artist_step_count:
  "artistsFound (artist_step fid ev a s) =
     artistsFound s + (case fst (upsertArtist a (db s)) of Inl err \<Rightarrow> 0 | Inr artistId \<Rightarrow> 1)"
  by (cases rule: artist_step_cases[of a s fid ev]) simp_all

lemma artist_loop_festivalsFound:
  "festivalsFound (artist_loop fid ev as s) = festivalsFound s"
  by (simp add: artist_loop_frame)

lemma listing_step_count:
  "festivalsFound (listing_step l s) =
     festivalsFound s +
       (case upsertVenue (l_event l) (db s) of
          (Inl err, st1) \<Rightarrow> 0
        | (Inr venueId, st1) \<Rightarrow>
            (case fst (upsertFestival (l_event l) venueId st1) of
               Inl err \<Rightarrow> 0 | Inr festivalId \<Rightarrow> 1))"
  by (cases rule: listing_step_cases[of l s]) (simp_all add: artist_loop_frame)

text \<open>A run that collects no error counts every listing and every artist occurrence.\<close>

lemma artist_step_clean:
  assumes "errors (artist_step fid ev a s) = []"
  shows "artistsFound (artist_step fid ev a s) = artistsFound s + 1"
  using assms by (cases rule: artist_step_cases[of a s fid ev]) simp_all

lemma artist_loop_clean:
  assumes "errors (artist_loop fid ev as s) = []"
  shows "artistsFound (artist_loop fid ev as s) = artistsFound s + length as"
  using assms
proof (induction as arbitrary: s)
  case Nil
  show ?case by simp
next
  case (Cons a as)
  let ?s1 = "artist_step fid ev a s"
  from Cons.prems have e: "errors (artist_loop fid ev as ?s1) = []" by simp
  with artist_loop_errors[of fid ev as ?s1] have "errors ?s1 = []" by auto
  then have "artistsFound ?s1 = artistsFound s + 1" by (rule artist_step_clean)
  with Cons.IH[OF e] show ?case by simp
qed

lemma listing_step_clean:
  assumes "errors (listing_step l s) = []"
  shows "festivalsFound (listing_step l s) = festivalsFound s + 1 \<and>
         artistsFound (listing_step l s) = artistsFound s + length (artists_of (l_event l))"
proof (cases rule: listing_step_cases[of l s])
  case (venue_throws err st1)
  with assms show ?thesis by simp
next
  case (festival_throws vid st1 err st2)
  with assms show ?thesis by simp
next
  case (artists vid st1 fid st2)
  let ?s2 = "s\<lparr>db := st2, festivalsFound := festivalsFound s + 1\<rparr>"
  from assms artists(3) have "errors (artist_loop fid (l_event l) (artists_of (l_event l)) ?s2) = []"
    by simp
  from artist_loop_clean[OF this] artist_loop_frame[of fid "l_event l" "artists_of (l_event l)" ?s2]
    artists(3)
  show ?thesis by simp
qed

lemma listing_loop_clean:
  assumes "errors (listing_loop ls s) = []"
  shows "festivalsFound (listing_loop ls s) = festivalsFound s + length ls \<and>
         artistsFound (listing_loop ls s) = artistsFound s + artist_slots ls"
  using assms
proof (induction ls arbitrary: s)
  case Nil
  show ?case by (simp add: artist_slots_def)
next
  case (Cons l ls)
  let ?s1 = "listing_step l s"
  from Cons.prems have e: "errors (listing_loop ls ?s1) = []" by simp
  with listing_loop_errors[of ls ?s1] have "errors ?s1 = []" by auto
  from listing_step_clean[OF this] Cons.IH[OF e] show ?case
    by (simp add: artist_slots_def)
qed

lemma syncArea_clean:
  assumes run: "syncArea service areaName areaId duration st = Some (Inr r, st')"
    and clean: "sum_errors r = []"
  shows "\<exists>got listings row.
           fetchRAEvents (service areaId) = Some got \<and> outcome got = Inr listings \<and>
           sum_festivalsFound r = length listings \<and>
           sum_artistsFound r = artist_slots listings \<and>
           scrapeLogs st' = scrapeLogs st @ [row] \<and>
           log_festivalsFound row = length listings \<and>
           log_artistsFound row = artist_slots listings"
proof -
  from run obtain got c where got: "fetchRAEvents (service areaId) = Some got"
    and call: "db_call (insert_scrapeLog (log_of (before_log got areaName st) duration))
           (db (before_log got areaName st)) = (c, st')"
    and res: "Inr r = (case c of Inl err \<Rightarrow> Inl err
                | Inr _ \<Rightarrow> Inr \<lparr>sum_festivalsFound = festivalsFound (before_log got areaName st),
                          sum_artistsFound = artistsFound (before_log got areaName st),
                          sum_errors = errors (before_log got areaName st)\<rparr>)"
    by (auto elim: syncArea_cases)
  let ?s = "before_log got areaName st"
  from res obtain u where c: "c = Inr u" by (cases c) auto
  with res clean have r: "sum_festivalsFound r = festivalsFound ?s"
    "sum_artistsFound r = artistsFound ?s" "errors ?s = []"
    by auto
  from r(3) obtain listings where out: "outcome got = Inr listings"
    by (cases "outcome got") (auto simp: before_log_thrown)
  with r(3) listing_loop_clean[of listings "fresh st"]
  have counts: "festivalsFound ?s = length listings" "artistsFound ?s = artist_slots listings"
    by (simp_all add: before_log_listings fresh_def)
  from log_effect[OF call] c before_log_scrapeLogs[of got areaName st]
  have "scrapeLogs st' = scrapeLogs st @ [log_of ?s duration]" by simp
  with got out r counts show ?thesis by (simp add: log_of_def)
qed

text \<open>
  C10. A step of the listing loop adds one to \<open>festivalsFound\<close> exactly when the venue
  upsert and then the festival upsert return, and a step of the artist loop adds one to
  \<open>artistsFound\<close> exactly when the artist upsert returns, whether the row was found or
  inserted and whether or not the lineup insert then throws. So, when a run and a second
  run from the store it left both return having collected no error, both report the
  number of listings and the number of artist occurrences in them, in their results and
  in their run-log rows, the first count positive when there is a listing; and the
  second run inserts no venue, artist, festival or lineup row.
\<close>

theorem run_log_counts:
  assumes run1: "syncArea service areaName areaId d1 st0 = Some (Inr r1, st1)"
    and clean1: "sum_errors r1 = []"
    and run2: "syncArea service areaName areaId d2 (st1\<lparr>faults := fs\<rparr>) = Some (Inr r2, st2)"
    and clean2: "sum_errors r2 = []"
  shows "festivalsFound (listing_step l s) =
           festivalsFound s +
             (case upsertVenue (l_event l) (db s) of
                (Inl err, st') \<Rightarrow> 0
              | (Inr venueId, st') \<Rightarrow>
                  (case fst (upsertFestival (l_event l) venueId st') of
                     Inl err \<Rightarrow> 0 | Inr festivalId \<Rightarrow> 1)) \<and>
         artistsFound (artist_step fid ev a s) =
           artistsFound s +
             (case fst (upsertArtist a (db s)) of Inl err \<Rightarrow> 0 | Inr artistId \<Rightarrow> 1) \<and>
         (\<exists>got listings row1 row2.
            fetchRAEvents (service areaId) = Some got \<and> outcome got = Inr listings \<and>
            sum_festivalsFound r1 = length listings \<and>
            sum_artistsFound r1 = artist_slots listings \<and>
            sum_festivalsFound r2 = length listings \<and>
            sum_artistsFound r2 = artist_slots listings \<and>
            scrapeLogs st2 = scrapeLogs st0 @ [row1, row2] \<and>
            log_festivalsFound row1 = length listings \<and>
            log_artistsFound row1 = artist_slots listings \<and>
            log_festivalsFound row2 = length listings \<and>
            log_artistsFound row2 = artist_slots listings \<and>
            (listings \<noteq> [] \<longrightarrow> 0 < log_festivalsFound row2) \<and>
            venues st2 = venues st1 \<and> artists st2 = artists st1 \<and>
            festivals st2 = festivals st1 \<and> festivalLineups st2 = festivalLineups st1)"
proof (intro conjI)
  show "festivalsFound (listing_step l s) =
           festivalsFound s +
             (case upsertVenue (l_event l) (db s) of
                (Inl err, st') \<Rightarrow> 0
              | (Inr venueId, st') \<Rightarrow>
                  (case fst (upsertFestival (l_event l) venueId st') of
                     Inl err \<Rightarrow> 0 | Inr festivalId \<Rightarrow> 1))"
    by (rule listing_step_count)
next
  show "artistsFound (artist_step fid ev a s) =
           artistsFound s +
             (case fst (upsertArtist a (db s)) of Inl err \<Rightarrow> 0 | Inr artistId \<Rightarrow> 1)"
    by (rule artist_step_count)
next
  from syncArea_clean[OF run1 clean1] obtain got listings row1 where
    1: "fetchRAEvents (service areaId) = Some got" "outcome got = Inr listings"
      "sum_festivalsFound r1 = length listings" "sum_artistsFound r1 = artist_slots listings"
      "scrapeLogs st1 = scrapeLogs st0 @ [row1]"
      "log_festivalsFound row1 = length listings" "log_artistsFound row1 = artist_slots listings"
    by blast
  from syncArea_clean[OF run2 clean2] 1(1,2) obtain row2 where
    2: "sum_festivalsFound r2 = length listings" "sum_artistsFound r2 = artist_slots listings"
      "scrapeLogs st2 = scrapeLogs st1 @ [row2]"
      "log_festivalsFound row2 = length listings" "log_artistsFound row2 = artist_slots listings"
    by auto
  from clean_run_then_same_rows[OF run1 clean1, of d2 fs] run2
  have rows: "venues st2 = venues st1 \<and> artists st2 = artists st1 \<and>
           festivals st2 = festivals st1 \<and> festivalLineups st2 = festivalLineups st1"
    by simp
  from 1 2 rows
  show "\<exists>got listings row1 row2.
            fetchRAEvents (service areaId) = Some got \<and> outcome got = Inr listings \<and>
            sum_festivalsFound r1 = length listings \<and>
            sum_artistsFound r1 = artist_slots listings \<and>
            sum_festivalsFound r2 = length listings \<and>
            sum_artistsFound r2 = artist_slots listings \<and>
            scrapeLogs st2 = scrapeLogs st0 @ [row1, row2] \<and>
            log_festivalsFound row1 = length listings \<and>
            log_artistsFound row1 = artist_slots listings \<and>
            log_festivalsFound row2 = length listings \<and>
            log_artistsFound row2 = artist_slots listings \<and>
            (listings \<noteq> [] \<longrightarrow> 0 < log_festivalsFound row2) \<and>
            venues st2 = venues st1 \<and> artists st2 = artists st1 \<and>
            festivals st2 = festivals st1 \<and> festivalLineups st2 = festivalLineups st1"
    by auto
qed

text \<open>
  The run log gets one row for each area: \<^verbatim>\<open>main\<close> writes one row because \<^verbatim>\<open>targetAreas\<close>
  has one entry.
\<close>

lemma sync_areas_log_rows:
  assumes "sync_areas service duration areas totals st = Some (Inr t, st')"
  shows "\<exists>rows. scrapeLogs st' = scrapeLogs st @ rows \<and> length rows = length areas"
  using assms
proof (induction areas arbitrary: totals st)
  case Nil
  then show ?case by simp
next
  case (Cons area rest)
  obtain name areaId where area: "area = (name, areaId)" by (cases area)
  obtain tf ta where totals: "totals = (tf, ta)" by (cases totals)
  from Cons.prems area totals obtain result st1 where
    run: "syncArea service name areaId (duration areaId) st = Some (Inr result, st1)"
    and rest: "sync_areas service duration rest
            (tf + sum_festivalsFound result, ta + sum_artistsFound result) st1 = Some (Inr t, st')"
    by (auto split: option.splits prod.splits sum.splits)
  from syncArea_log[OF run] obtain row where row: "scrapeLogs st1 = scrapeLogs st @ [row]"
    by auto
  from Cons.IH[OF rest] obtain rows where
    "scrapeLogs st' = scrapeLogs st1 @ rows" "length rows = length rest" by auto
  with row show ?case by simp
qed



section \<open>The sample runs\<close>

lemmas store_eval =
  upsertVenue_def upsertFestival_def upsertArtist_def db_call_def
  select_venue_def insert_venue_def select_artist_def insert_artist_def
  select_festival_def insert_festival_def insert_lineup_onConflictDoNothing_def
  insert_scrapeLog_def lineup_key_def
  artist_error_def event_error_def area_error_def festival_slug_def
  or_null_def date_part_def time_part_def image_url_def website_url_def
  slugify_def js_def toLowerCase_def lower_unit_def alnum_def trim_hyphen_def
  Let_def

lemmas sample_rows =
  rancho_row_def envision_row_def bob_moses_row_def clozee_row_def envision_slot_def

lemma fetch_sample:
  "fetchRAEvents (sample_service a) =
     Some \<lparr>outcome = Inr [envision], console = [PageLine 1 1 1], requests = 1\<rparr>"
  unfolding fetchRAEvents_def
  by (subst fetch_pages.simps) (simp add: sample_service_def)

lemma step_healthy:
  "listing_step envision \<lparr>db = empty_store, festivalsFound = 0, artistsFound = 0, errors = []\<rparr> =
     \<lparr>db = synced_store\<lparr>scrapeLogs := []\<rparr>, festivalsFound = 1, artistsFound = 2, errors = []\<rparr>"
  unfolding listing_step_def Let_def
  apply (simp add: store_eval envision_def empty_store_def)
  apply (simp add: artist_step_def store_eval bob_moses_def clozee_def synced_store_def sample_rows)
  done

lemma run_healthy:
  "syncArea sample_service (js ''Costa Rica'') 26 5 empty_store =
     Some (Inr \<lparr>sum_festivalsFound = 1, sum_artistsFound = 2, sum_errors = []\<rparr>, synced_store)"
  by (simp add: syncArea_unfold fetch_sample before_log_def step_healthy log_of_def
        db_call_def insert_scrapeLog_def synced_store_def)

lemma step_flaky:
  "listing_step envision \<lparr>db = flaky_store, festivalsFound = 0, artistsFound = 0, errors = []\<rparr> =
     \<lparr>db = flaky_synced\<lparr>scrapeLogs := []\<rparr>, festivalsFound = 1, artistsFound = 1,
      errors = [js ''Artist Bob Moses: connection reset'']\<rparr>"
  unfolding listing_step_def Let_def
  apply (simp add: store_eval envision_def empty_store_def flaky_store_def)
  apply (simp add: artist_step_def store_eval bob_moses_def clozee_def flaky_synced_def sample_rows)
  done

lemma run_flaky:
  "syncArea sample_service (js ''Costa Rica'') 26 5 flaky_store =
     Some (Inr \<lparr>sum_festivalsFound = 1, sum_artistsFound = 1,
                sum_errors = [js ''Artist Bob Moses: connection reset'']\<rparr>, flaky_synced)"
  by (simp add: syncArea_unfold fetch_sample before_log_def step_flaky log_of_def
        db_call_def insert_scrapeLog_def flaky_synced_def)

lemma step_flaky_again:
  "map a_slug (artists (db (listing_step envision
      \<lparr>db = flaky_synced, festivalsFound = 0, artistsFound = 0, errors = []\<rparr>))) =
     [js ''clozee'', js ''bob-moses''] \<and>
   faults (db (listing_step envision
      \<lparr>db = flaky_synced, festivalsFound = 0, artistsFound = 0, errors = []\<rparr>)) = []"
  unfolding listing_step_def Let_def
  apply (simp add: store_eval envision_def flaky_synced_def sample_rows)
  apply (simp add: artist_step_def store_eval bob_moses_def clozee_def)
  done

theorem second_sync_inserts_nothing_witness:
  "syncArea sample_service (js ''Costa Rica'') 26 5 empty_store =
     Some (Inr \<lparr>sum_festivalsFound = 1, sum_artistsFound = 2, sum_errors = []\<rparr>, synced_store) \<and>
   (\<exists>res2 st2.
      syncArea sample_service (js ''Costa Rica'') 26 7
        (synced_store\<lparr>faults := [Some (Error (js ''connection reset''))]\<rparr>) = Some (res2, st2) \<and>
      venues st2 = venues synced_store \<and> artists st2 = artists synced_store \<and>
      festivals st2 = festivals synced_store \<and>
      festivalLineups st2 = festivalLineups synced_store)"
  using second_sync_inserts_nothing[OF run_healthy, of 7 "[Some (Error (js ''connection reset''))]"]
    run_healthy
  by simp

text \<open>
  The claim C1 without the condition on the first run: on \<open>flaky_store\<close> the insert of
  the first artist throws in the first run, which ends with one error and one artist
  row; the second run, from the store it left, inserts the missing artist.
\<close>

theorem second_sync_after_failure_inserts:
  "syncArea sample_service (js ''Costa Rica'') 26 5 flaky_store =
     Some (Inr \<lparr>sum_festivalsFound = 1, sum_artistsFound = 1,
                sum_errors = [js ''Artist Bob Moses: connection reset'']\<rparr>, flaky_synced) \<and>
   map a_slug (artists flaky_synced) = [js ''clozee''] \<and>
   map a_slug (artists (snd (the (syncArea sample_service (js ''Costa Rica'') 26 5 flaky_synced)))) =
     [js ''clozee'', js ''bob-moses'']"
proof -
  let ?s = "listing_step envision
      \<lparr>db = flaky_synced, festivalsFound = 0, artistsFound = 0, errors = []\<rparr>"
  from step_flaky_again have s: "map a_slug (artists (db ?s)) = [js ''clozee'', js ''bob-moses'']"
    "faults (db ?s) = []" by simp_all
  have "snd (the (syncArea sample_service (js ''Costa Rica'') 26 5 flaky_synced)) =
          (db ?s)\<lparr>scrapeLogs := scrapeLogs (db ?s) @ [log_of ?s 5]\<rparr>"
    by (simp add: syncArea_unfold fetch_sample before_log_def log_ok[OF s(2)])
  with s(1) run_flaky show ?thesis
    by (simp add: flaky_synced_def clozee_row_def)
qed

theorem lineup_pair_unique_witness:
  "insert_lineup_onConflictDoNothing (envision_slot 0 2) synced_store = (Inr (), synced_store) \<and>
   distinct (map lineup_key (festivalLineups
      (snd (insert_lineup_onConflictDoNothing (envision_slot 0 9) synced_store)))) \<and>
   distinct (map lineup_key (festivalLineups synced_store))"
proof -
  have key: "lineup_key (envision_slot 0 2) \<in> set (map lineup_key (festivalLineups synced_store))"
    by (simp add: synced_store_def envision_slot_def lineup_key_def)
  have d0: "distinct (map lineup_key (festivalLineups empty_store))"
    by (simp add: empty_store_def)
  from lineup_pair_unique[of "envision_slot 0 2" empty_store sample_service "js ''Costa Rica''" 26 5
      "Inr \<lparr>sum_festivalsFound = 1, sum_artistsFound = 2, sum_errors = []\<rparr>" synced_store]
    d0 run_healthy
  have d: "distinct (map lineup_key (festivalLineups synced_store))" by simp
  from lineup_pair_unique[of "envision_slot 0 2" synced_store] key
  have 1: "insert_lineup_onConflictDoNothing (envision_slot 0 2) synced_store = (Inr (), synced_store)"
    by simp
  from lineup_pair_unique[of "envision_slot 0 9" synced_store] d
  have 2: "distinct (map lineup_key (festivalLineups
      (snd (insert_lineup_onConflictDoNothing (envision_slot 0 9) synced_store))))"
    by simp
  from 1 2 d show ?thesis by simp
qed

theorem run_log_classification_witness:
  "syncArea sample_service (js ''Costa Rica'') 26 5 flaky_store =
     Some (Inr \<lparr>sum_festivalsFound = 1, sum_artistsFound = 1,
                sum_errors = [js ''Artist Bob Moses: connection reset'']\<rparr>, flaky_synced) \<and>
   (\<exists>row. scrapeLogs flaky_synced = scrapeLogs flaky_store @ [row] \<and>
      log_status row = js ''partial'' \<and>
      log_errors row = [js ''Artist Bob Moses: connection reset''] \<and>
      length (log_errors row) \<le> 20)"
  using run_log_classification[OF run_flaky] run_flaky
  by simp

theorem run_log_counts_witness:
  "\<exists>st2 row1 row2.
     syncArea sample_service (js ''Costa Rica'') 26 5 empty_store =
       Some (Inr \<lparr>sum_festivalsFound = 1, sum_artistsFound = 2, sum_errors = []\<rparr>, synced_store) \<and>
     syncArea sample_service (js ''Costa Rica'') 26 7 (synced_store\<lparr>faults := []\<rparr>) =
       Some (Inr \<lparr>sum_festivalsFound = 1, sum_artistsFound = 2, sum_errors = []\<rparr>, st2) \<and>
     scrapeLogs st2 = scrapeLogs empty_store @ [row1, row2] \<and>
     log_festivalsFound row1 = 1 \<and> log_artistsFound row1 = 2 \<and>
     log_festivalsFound row2 = 1 \<and> log_artistsFound row2 = 2 \<and>
     venues st2 = venues synced_store \<and> artists st2 = artists synced_store \<and>
     festivals st2 = festivals synced_store \<and>
     festivalLineups st2 = festivalLineups synced_store"
proof -
  have slots: "artist_slots [envision] = 2"
    by (simp add: artist_slots_def artists_of_def envision_def)
  have got: "fetchRAEvents (sample_service 26) =
      Some \<lparr>outcome = Inr [envision], console = [PageLine 1 1 1], requests = 1\<rparr>"
    by (rule fetch_sample)
  from syncArea_ok[of sample_service 26 _ "[envision]" "synced_store\<lparr>faults := []\<rparr>"
      "js ''Costa Rica''" 7] got slots
  obtain st2 where run2: "syncArea sample_service (js ''Costa Rica'') 26 7
       (synced_store\<lparr>faults := []\<rparr>) =
       Some (Inr \<lparr>sum_festivalsFound = 1, sum_artistsFound = 2, sum_errors = []\<rparr>, st2)"
    by auto
  note counts = run_log_counts[OF run_healthy _ run2]
  from counts[THEN conjunct2, THEN conjunct2] got slots run_healthy run2
  show ?thesis by auto
qed

lemma step_flaky_again_counts:
  "artistsFound (listing_step envision
      \<lparr>db = flaky_synced, festivalsFound = 0, artistsFound = 0, errors = []\<rparr>) = 2 \<and>
   map lineup_key (festivalLineups (db (listing_step envision
      \<lparr>db = flaky_synced, festivalsFound = 0, artistsFound = 0, errors = []\<rparr>))) =
     [(1, 2), (1, 4)]"
  unfolding listing_step_def Let_def
  apply (simp add: store_eval envision_def flaky_synced_def sample_rows)
  apply (simp add: artist_step_def store_eval bob_moses_def clozee_def)
  done

lemma run_flaky_again:
  "snd (the (syncArea sample_service (js ''Costa Rica'') 26 5 flaky_synced)) =
     (db (listing_step envision
            \<lparr>db = flaky_synced, festivalsFound = 0, artistsFound = 0, errors = []\<rparr>))
     \<lparr>scrapeLogs :=
        scrapeLogs flaky_synced @
          [log_of (listing_step envision
                     \<lparr>db = flaky_synced, festivalsFound = 0, artistsFound = 0, errors = []\<rparr>) 5]\<rparr>"
proof -
  let ?s = "listing_step envision
      \<lparr>db = flaky_synced, festivalsFound = 0, artistsFound = 0, errors = []\<rparr>"
  from step_flaky_again have "faults (db ?s) = []" by simp
  from log_ok[OF this] listing_step_scrapeLogs[of envision
      "\<lparr>db = flaky_synced, festivalsFound = 0, artistsFound = 0, errors = []\<rparr>"]
  show ?thesis
    by (simp add: syncArea_unfold fetch_sample before_log_def)
qed

text \<open>
  The claim C10 without the condition on the two runs: the run on \<open>flaky_store\<close> reports
  one artist, and the second run, from the store it left, reports two in its run-log row
  and inserts a lineup row.
\<close>

theorem second_run_counts_differ:
  "syncArea sample_service (js ''Costa Rica'') 26 5 flaky_store =
     Some (Inr \<lparr>sum_festivalsFound = 1, sum_artistsFound = 1,
                sum_errors = [js ''Artist Bob Moses: connection reset'']\<rparr>, flaky_synced) \<and>
   map log_artistsFound
     (scrapeLogs (snd (the (syncArea sample_service (js ''Costa Rica'') 26 5 flaky_synced)))) =
     [1, 2] \<and>
   map lineup_key (festivalLineups flaky_synced) = [(1, 2)] \<and>
   map lineup_key
     (festivalLineups (snd (the (syncArea sample_service (js ''Costa Rica'') 26 5 flaky_synced)))) =
     [(1, 2), (1, 4)]"
proof -
  have "map log_artistsFound (scrapeLogs flaky_synced) = [1]"
    "map lineup_key (festivalLineups flaky_synced) = [(1, 2)]"
    by (simp_all add: flaky_synced_def envision_slot_def lineup_key_def)
  with run_flaky step_flaky_again_counts show ?thesis
    by (simp add: run_flaky_again log_of_def)
qed





lemma trio_venue:
  "fst (upsertVenue (l_event trio) second_artist_fails) = Inr (Some 0)"
  by (simp add: store_eval trio_def envision_def second_artist_fails_def empty_store_def)

lemma trio_festival:
  "fst (upsertFestival (l_event trio) (Some 0)
          (snd (upsertVenue (l_event trio) second_artist_fails))) = Inr 1"
  by (simp add: store_eval trio_def envision_def second_artist_fails_def empty_store_def)

lemma trio_second_artist:
  "fst (upsertArtist clozee
          (db (artist_step 1 (l_event trio) bob_moses
                 \<lparr>db = snd (upsertFestival (l_event trio) (Some 0)
                             (snd (upsertVenue (l_event trio) second_artist_fails))),
                  festivalsFound = 1, artistsFound = 0, errors = []\<rparr>))) =
     Inl (Error (js ''connection reset''))"
  by (simp add: store_eval artist_step_def trio_def envision_def second_artist_fails_def
        empty_store_def bob_moses_def clozee_def)

lemma trio_step:
  "map a_slug (artists (db (listing_step trio (fresh second_artist_fails)))) =
     [js ''bob-moses'', js ''tipper''] \<and>
   map v_name (venues (db (listing_step trio (fresh second_artist_fails)))) =
     [js ''Rancho La Merced''] \<and>
   map f_slug (festivals (db (listing_step trio (fresh second_artist_fails)))) =
     [js ''envision-festival-123'']"
  unfolding listing_step_def Let_def fresh_def
  apply (simp add: store_eval trio_def envision_def second_artist_fails_def empty_store_def)
  apply (simp add: artist_step_def store_eval bob_moses_def clozee_def tipper_def)
  done

theorem artist_failure_isolated_witness:
  "js ''Artist CloZee: connection reset'' \<in>
     set (errors (listing_step trio (fresh second_artist_fails))) \<and>
   map a_slug (artists (db (listing_step trio (fresh second_artist_fails)))) =
     [js ''bob-moses'', js ''tipper''] \<and>
   map v_name (venues (db (listing_step trio (fresh second_artist_fails)))) =
     [js ''Rancho La Merced''] \<and>
   map f_slug (festivals (db (listing_step trio (fresh second_artist_fails)))) =
     [js ''envision-festival-123'']"
proof -
  define st1 where "st1 = snd (upsertVenue (l_event trio) second_artist_fails)"
  define st2 where "st2 = snd (upsertFestival (l_event trio) (Some 0) st1)"
  define sk where "sk = artist_loop 1 (l_event trio) [bob_moses]
     ((fresh second_artist_fails)\<lparr>db := st2, festivalsFound := festivalsFound (fresh second_artist_fails) + 1\<rparr>)"
  define st3 where "st3 = snd (upsertArtist clozee (db sk))"
  have venue: "upsertVenue (l_event trio) (db (fresh second_artist_fails)) = (Inr (Some 0), st1)"
    using trio_venue by (simp add: st1_def fresh_def prod_eq_iff)
  have festival: "upsertFestival (l_event trio) (Some 0) st1 = (Inr 1, st2)"
    using trio_festival by (simp add: st1_def st2_def prod_eq_iff)
  have artists: "e_artists (l_event trio) = Some ([bob_moses] @ clozee # [tipper])"
    by (simp add: trio_def)
  have throws: "upsertArtist clozee (db sk) = (Inl (Error (js ''connection reset'')), st3)"
    using trio_second_artist by (simp add: sk_def st3_def st2_def st1_def fresh_def prod_eq_iff)
  note isolated = artist_failure_isolated[OF venue festival artists sk_def[symmetric] throws]
  from isolated[THEN conjunct2, THEN conjunct1]
  have "js ''Artist '' @ art_name clozee @ js '': '' @ message (Error (js ''connection reset''))
          \<in> set (errors (listing_step trio (fresh second_artist_fails)))" .
  then have "js ''Artist CloZee: connection reset'' \<in>
     set (errors (listing_step trio (fresh second_artist_fails)))"
    by (simp add: clozee_def js_def)
  with trio_step show ?thesis by simp
qed

end
